theory Spec2Isabelle
  imports Complex_Main "HOL-Library.Word"
begin

section \<open>JavaScript values\<close>

text \<open>
  The simplified nodes, the payloads of the global-variable store and the store itself are
  plain JavaScript objects. A value is a tree; an object is the list of its own enumerable
  properties in enumeration order. Numbers are the reals: NaN, the infinities, the negative
  zero and the rounding of doubles are outside this model.
\<close>

datatype jv =
    JUndef
  | JNull
  | JBool bool
  | JNum real
  | JStr string
  | JArr "jv list"
  | JObj "(string \<times> jv) list"

type_synonym jobject = "(string \<times> jv) list"

text \<open>Reading a property: \<open>o.k\<close> (and \<open>o?.k\<close>) is \<open>undefined\<close> when the key is absent.\<close>

definition getProp :: "string \<Rightarrow> jobject \<Rightarrow> jv" where
  "getProp k kvs = (case map_of kvs k of None \<Rightarrow> JUndef | Some v \<Rightarrow> v)"

fun propOf :: "string \<Rightarrow> jv \<Rightarrow> jv" where
  "propOf k (JObj kvs) = getProp k kvs"
| "propOf k v = JUndef"

definition hasKey :: "string \<Rightarrow> (string \<times> 'a) list \<Rightarrow> bool" where
  "hasKey k kvs = (map_of kvs k \<noteq> None)"

text \<open>
  Property enumeration order: the keys that are array indices (canonical decimal numerals
  below \<open>2^32 - 1\<close>) come first, in ascending numeric order, then every other string key in
  the order of its creation.
\<close>

definition isDigit :: "char \<Rightarrow> bool" where
  "isDigit c = (let n = (of_char c :: nat) in 48 \<le> n \<and> n \<le> 57)"

definition digitsValue :: "string \<Rightarrow> nat" where
  "digitsValue s = foldl (\<lambda>acc c. 10 * acc + ((of_char c :: nat) - 48)) 0 s"

definition isArrayIndex :: "string \<Rightarrow> bool" where
  "isArrayIndex s =
     (s \<noteq> [] \<and> list_all isDigit s \<and> (if length s = 1 then True else hd s \<noteq> CHR ''0'')
      \<and> digitsValue s < 2 ^ 32 - 1)"

fun insertKey :: "string \<Rightarrow> 'a \<Rightarrow> (string \<times> 'a) list \<Rightarrow> (string \<times> 'a) list" where
  "insertKey k v [] = [(k, v)]"
| "insertKey k v ((k', v') # rest) =
     (if isArrayIndex k \<and> (if isArrayIndex k' then digitsValue k < digitsValue k' else True)
      then (k, v) # (k', v') # rest
      else (k', v') # insertKey k v rest)"

text \<open>The assignment \<open>o[k] = v\<close>: an existing key keeps its place, a new one is created.\<close>

definition setProp :: "string \<Rightarrow> 'a \<Rightarrow> (string \<times> 'a) list \<Rightarrow> (string \<times> 'a) list" where
  "setProp k v kvs =
     (if hasKey k kvs then map (\<lambda>kv. if fst kv = k then (k, v) else kv) kvs
      else insertKey k v kvs)"

text \<open>\<open>delete o[k]\<close>.\<close>

definition deleteProp :: "string \<Rightarrow> (string \<times> 'a) list \<Rightarrow> (string \<times> 'a) list" where
  "deleteProp k kvs = filter (\<lambda>kv. fst kv \<noteq> k) kvs"

text \<open>\<open>Array.isArray\<close>, \<open>typeof v === 'object'\<close>, \<open>v.length\<close> of an array and
  \<open>Object.keys(v).length\<close> of an object or an array.\<close>

fun isArray :: "jv \<Rightarrow> bool" where
  "isArray (JArr xs) = True"
| "isArray v = False"

fun typeofObject :: "jv \<Rightarrow> bool" where
  "typeofObject JNull = True"
| "typeofObject (JArr xs) = True"
| "typeofObject (JObj kvs) = True"
| "typeofObject v = False"

fun arrayLength :: "jv \<Rightarrow> nat" where
  "arrayLength (JArr xs) = length xs"
| "arrayLength v = 0"

fun keysLength :: "jv \<Rightarrow> nat" where
  "keysLength (JObj kvs) = length kvs"
| "keysLength (JArr xs) = length xs"
| "keysLength v = 0"

text \<open>Truthiness of a value in a condition.\<close>

fun truthy :: "jv \<Rightarrow> bool" where
  "truthy JUndef = False"
| "truthy JNull = False"
| "truthy (JBool b) = b"
| "truthy (JNum x) = (x \<noteq> 0)"
| "truthy (JStr s) = (s \<noteq> [])"
| "truthy (JArr xs) = True"
| "truthy (JObj kvs) = True"

text \<open>The nullish coalescing operator \<open>x ?? y\<close>.\<close>

fun nullish :: "jv \<Rightarrow> bool" where
  "nullish JUndef = True"
| "nullish JNull = True"
| "nullish v = False"

definition coalesce :: "jv \<Rightarrow> jv \<Rightarrow> jv" where
  "coalesce x y = (if nullish x then y else x)"

definition optStr :: "string option \<Rightarrow> jv" where
  "optStr x = (case x of None \<Rightarrow> JUndef | Some s \<Rightarrow> JStr s)"

subsection \<open>\<open>JSON.stringify\<close>\<close>

text \<open>
  \<open>JSON.stringify\<close> is kept as the tree that its text denotes: two values have the same
  JSON text exactly when they have the same tree here. A property whose value is
  \<open>undefined\<close> is left out of an object, an \<open>undefined\<close> array element is written
  \<open>null\<close>, and \<open>JSON.stringify(undefined)\<close> is \<open>undefined\<close> itself.
\<close>

fun undefToNull :: "jv \<Rightarrow> jv" where
  "undefToNull JUndef = JNull"
| "undefToNull v = v"

primrec JSON_stringify :: "jv \<Rightarrow> jv" where
  "JSON_stringify JUndef = JUndef"
| "JSON_stringify JNull = JNull"
| "JSON_stringify (JBool b) = JBool b"
| "JSON_stringify (JNum x) = JNum x"
| "JSON_stringify (JStr s) = JStr s"
| "JSON_stringify (JArr xs) = JArr (map undefToNull (map JSON_stringify xs))"
| "JSON_stringify (JObj kvs) =
     JObj (filter (\<lambda>kv. snd kv \<noteq> JUndef) (map (map_prod id JSON_stringify) kvs))"

section \<open>utils/common\<close>

subsection \<open>removeEmptyKeys\<close>

text \<open>
  \<^verbatim>\<open>
  if (typeof input !== 'object' || input === null) return input;
  if (Array.isArray(input)) return input.map(item => removeEmptyKeys(item));
  const result = {};
  for (const key in input)
    if (Object.prototype.hasOwnProperty.call(input, key)) {
      const cleanedValue = removeEmptyKeys(input[key]);
      if (cleanedValue !== undefined &&
          !(Array.isArray(cleanedValue) && cleanedValue.length === 0) &&
          !(typeof cleanedValue === 'object' && cleanedValue !== null &&
            Object.keys(cleanedValue).length === 0))
        result[key] = cleanedValue;
    }
  return result;
  \<close>
  The result is built in the enumeration order of the input, so it has that order too.
\<close>

definition keepCleaned :: "jv \<Rightarrow> bool" where
  "keepCleaned c =
     (c \<noteq> JUndef \<and> \<not> (isArray c \<and> arrayLength c = 0)
      \<and> \<not> (typeofObject c \<and> c \<noteq> JNull \<and> keysLength c = 0))"

primrec removeEmptyKeys :: "jv \<Rightarrow> jv" where
  "removeEmptyKeys JUndef = JUndef"
| "removeEmptyKeys JNull = JNull"
| "removeEmptyKeys (JBool b) = JBool b"
| "removeEmptyKeys (JNum x) = JNum x"
| "removeEmptyKeys (JStr s) = JStr s"
| "removeEmptyKeys (JArr xs) = JArr (map removeEmptyKeys xs)"
| "removeEmptyKeys (JObj kvs) =
     JObj (filter (\<lambda>kv. keepCleaned (snd kv)) (map (map_prod id removeEmptyKeys) kvs))"

subsection \<open>convertColor\<close>

record RGBA =
  color_r :: real
  color_g :: real
  color_b :: real
  color_a :: real

record ColorValue =
  cv_hex :: string
  cv_opacity :: real

text \<open>\<open>Math.round\<close> rounds to the nearest integer, a half upwards.\<close>

definition Math_round :: "real \<Rightarrow> int" where
  "Math_round x = \<lfloor>x + 1 / 2\<rfloor>"

text \<open>\<open>x << k\<close> works on the 32-bit two's complement of \<open>x\<close>.\<close>

definition shiftLeft32 :: "int \<Rightarrow> nat \<Rightarrow> int" where
  "shiftLeft32 x k = sint (push_bit k (word_of_int x :: 32 word))"

definition hexDigit :: "nat \<Rightarrow> char" where
  "hexDigit d = ''0123456789abcdef'' ! d"

function hexNat :: "nat \<Rightarrow> string" where
  "hexNat n = (if n < 16 then [hexDigit n] else hexNat (n div 16) @ [hexDigit (n mod 16)])"
  by pat_completeness auto
termination
  by (relation "measure id") auto

text \<open>\<open>n.toString(16)\<close> of an integer, and \<open>s.toUpperCase()\<close> on ASCII.\<close>

definition toString16 :: "int \<Rightarrow> string" where
  "toString16 n = (if n < 0 then CHR ''-'' # hexNat (nat (- n)) else hexNat (nat n))"

definition toUpperChar :: "char \<Rightarrow> char" where
  "toUpperChar c =
     (let n = (of_char c :: nat) in if 97 \<le> n \<and> n \<le> 122 then char_of (n - 32) else c)"

definition toUpperCase :: "string \<Rightarrow> string" where
  "toUpperCase s = map toUpperChar s"

text \<open>
  \<^verbatim>\<open>
  export function convertColor(color: RGBA, opacity = 1): ColorValue {
    const r = Math.round(color.r * 255);
    const g = Math.round(color.g * 255);
    const b = Math.round(color.b * 255);
    const a = Math.round(opacity * color.a * 100) / 100;
    const hex = "#" + ((1 << 24) + (r << 16) + (g << 8) + b).toString(16).slice(1).toUpperCase();
    return { hex, opacity: a };
  }
  \<close>
  The optional second argument is \<open>None\<close> when the caller leaves it out or passes
  \<open>undefined\<close>; the default is then 1.
\<close>

definition convertColor :: "RGBA \<Rightarrow> real option \<Rightarrow> ColorValue" where
  "convertColor color opacityArg =
     (let opacity = (case opacityArg of None \<Rightarrow> 1 | Some x \<Rightarrow> x);
          r = Math_round (color_r color * 255);
          g = Math_round (color_g color * 255);
          b = Math_round (color_b color * 255);
          a = real_of_int (Math_round (opacity * color_a color * 100)) / 100;
          hex = CHR ''#'' #
                toUpperCase (drop 1 (toString16
                  (shiftLeft32 1 24 + shiftLeft32 r 16 + shiftLeft32 g 8 + b)))
      in \<lparr>cv_hex = hex, cv_opacity = a\<rparr>)"

subsection \<open>generateVarId\<close>

text \<open>
  \<^verbatim>\<open>
  export function generateVarId(prefix: string = 'var'): string {
    const chars = 'ABCDEFGHIJKLMNOPQRSTUVWXYZ0123456789';
    let result = '';
    for (let i = 0; i < 6; i++) {
      const randomIndex = Math.floor(Math.random() * chars.length);
      result += chars[randomIndex];
    }
    return `${prefix}_${result}`;
  }
  \<close>
  \<open>Math.random\<close> is an oracle \<open>rnd\<close>: the \<open>i\<close>-th call of a run yields the index
  \<open>rnd i mod 36\<close> (the product \<open>Math.random() * 36\<close> lies in \<open>[0, 36)\<close>). The caller says
  how many calls came before. The simplifier calls the function without a prefix.
\<close>

definition chars :: string where
  "chars = ''ABCDEFGHIJKLMNOPQRSTUVWXYZ0123456789''"

definition generateVarId :: "(nat \<Rightarrow> nat) \<Rightarrow> nat \<Rightarrow> string" where
  "generateVarId rnd calls = ''var_'' @ map (\<lambda>i. chars ! (rnd (calls + i) mod 36)) [0..<6]"

section \<open>services/simplify-node-response\<close>

subsection \<open>parsePaint\<close>

record ColorStop =
  stop_position :: real
  stop_color :: RGBA

record Paint =
  paint_type :: string
  paint_imageRef :: "string option"
  paint_scaleMode :: "string option"
  paint_color :: "RGBA option"
  paint_opacity :: "real option"
  paint_gradientHandlePositions :: jv
  paint_gradientStops :: "ColorStop list option"

text \<open>
  What the simplifier can throw: the error of \<open>parsePaint\<close>, with the tag it reports, and
  the \<open>TypeError\<close> of reading a property of \<open>undefined\<close>. \<open>NotModelled\<close> marks a store
  that no run builds (a \<open>vectorParents\<close> entry that is not an object, a \<open>childrenId\<close> that is
  not a string), where the behaviour of JavaScript is not followed.
\<close>

datatype error = UnknownPaintType string | TypeError | NotModelled

definition colorValueObject :: "ColorValue \<Rightarrow> jv" where
  "colorValueObject cv = JObj [(''hex'', JStr (cv_hex cv)), (''opacity'', JNum (cv_opacity cv))]"

text \<open>
  \<^verbatim>\<open>
  function parsePaint(raw: Paint): SimplifiedFill {
    if (raw.type === "IMAGE") {
      return { type: "IMAGE", imageRef: raw.imageRef, scaleMode: raw.scaleMode };
    } else if (raw.type === "SOLID") {
      const { hex, opacity } = convertColor(raw.color!, raw.opacity);
      return { type: "SOLID", hex, opacity };
    } else if (["GRADIENT_LINEAR", "GRADIENT_RADIAL", "GRADIENT_ANGULAR",
                "GRADIENT_DIAMOND"].includes(raw.type)) {
      return { type: raw.type, gradientHandlePositions: raw.gradientHandlePositions,
               gradientStops: raw.gradientStops.map(({ position, color }) =>
                 ({ position, color: convertColor(color) })) };
    } else {
      throw new Error(`Unknown paint type: ${raw.type}`);
    }
  }
  \<close>
  A solid paint without a colour and a gradient without stops make the property reads
  \<open>color.r\<close> and \<open>gradientStops.map\<close> throw.
\<close>

definition parsePaint :: "Paint \<Rightarrow> error + jv" where
  "parsePaint raw =
     (if paint_type raw = ''IMAGE'' then
        Inr (JObj [(''type'', JStr ''IMAGE''),
                   (''imageRef'', optStr (paint_imageRef raw)),
                   (''scaleMode'', optStr (paint_scaleMode raw))])
      else if paint_type raw = ''SOLID'' then
        (case paint_color raw of
           None \<Rightarrow> Inl TypeError
         | Some c \<Rightarrow>
             (let cv = convertColor c (paint_opacity raw)
              in Inr (JObj [(''type'', JStr ''SOLID''),
                            (''hex'', JStr (cv_hex cv)),
                            (''opacity'', JNum (cv_opacity cv))])))
      else if paint_type raw \<in> set [''GRADIENT_LINEAR'', ''GRADIENT_RADIAL'',
                                      ''GRADIENT_ANGULAR'', ''GRADIENT_DIAMOND''] then
        (case paint_gradientStops raw of
           None \<Rightarrow> Inl TypeError
         | Some stops \<Rightarrow>
             Inr (JObj [(''type'', JStr (paint_type raw)),
                        (''gradientHandlePositions'', paint_gradientHandlePositions raw),
                        (''gradientStops'',
                           JArr (map (\<lambda>s. JObj [(''position'', JNum (stop_position s)),
                                                  (''color'', colorValueObject
                                                     (convertColor (stop_color s) None))])
                                     stops))]))
      else Inl (UnknownPaintType (paint_type raw)))"

text \<open>\<open>paints.map(parsePaint)\<close>: left to right, the first throw ends the map.\<close>

fun mapParsePaint :: "Paint list \<Rightarrow> error + jv list" where
  "mapParsePaint [] = Inr []"
| "mapParsePaint (p # ps) =
     (case parsePaint p of
        Inl e \<Rightarrow> Inl e
      | Inr f \<Rightarrow> (case mapParsePaint ps of Inl e \<Rightarrow> Inl e | Inr fs \<Rightarrow> Inr (f # fs)))"

subsection \<open>findOrCreateVar\<close>

text \<open>
  The state of one run: the \<open>globalVars\<close> object, which every call shares and mutates,
  and the number of \<open>Math.random\<close> calls made so far.
\<close>

record run_state =
  globalVars :: jobject
  randomCalls :: nat

text \<open>
  \<^verbatim>\<open>
  function findOrCreateVar(globalVars: Record<string, any>, value: any): string {
    const existingVarId = Object.entries(globalVars).find(
      ([_, existingValue]) => JSON.stringify(existingValue) === JSON.stringify(value)
    )?.[0];
    if (existingVarId) return existingVarId;
    const varId = generateVarId();
    globalVars[varId] = value;
    return varId;
  }
  \<close>
  An empty key is falsy, so a match under the key \<open>""\<close> counts as no match.
\<close>

definition createVar :: "(nat \<Rightarrow> nat) \<Rightarrow> run_state \<Rightarrow> jv \<Rightarrow> string \<times> run_state" where
  "createVar rnd st v =
     (let varId = generateVarId rnd (randomCalls st)
      in (varId, st\<lparr>globalVars := setProp varId v (globalVars st),
                    randomCalls := randomCalls st + 6\<rparr>))"

definition findOrCreateVar :: "(nat \<Rightarrow> nat) \<Rightarrow> run_state \<Rightarrow> jv \<Rightarrow> string \<times> run_state" where
  "findOrCreateVar rnd st v =
     (case find (\<lambda>kv. JSON_stringify (snd kv) = JSON_stringify v) (globalVars st) of
        Some kv \<Rightarrow> if fst kv \<noteq> [] then (fst kv, st) else createVar rnd st v
      | None \<Rightarrow> createVar rnd st v)"


subsection \<open>Raw nodes\<close>

text \<open>
  The fields of a Figma document node that the simplifier reads. An optional field is
  \<open>None\<close> when the node does not have it. \<open>style\<close> and \<open>styles\<close> are objects of the API
  and are kept as such; a node without children has the empty list.
\<close>

datatype RawNode = RawNode
  (node_id: string)
  (node_name: string)
  (node_type: string)
  (node_visible: "bool option")
  (node_style: "jobject option")
  (node_fills: "Paint list option")
  (node_styles: "jv option")
  (node_strokes: "Paint list option")
  (node_characters: "string option")
  (node_strokeWeight: "real option")
  (node_strokeDashes: "real list option")
  (node_individualStrokeWeights: "jv option")
  (node_opacity: "real option")
  (node_cornerRadius: "real option")
  (node_children: "RawNode list")

text \<open>
  What the simplifier takes from outside: \<open>Math.random\<close> (see \<open>generateVarId\<close>), the layout
  builder \<open>buildSimplifiedLayout(n, parent)\<close> of \<open>transformers/layout\<close>, whose result is an
  object, and the conversion of a number to a string in a template literal.
\<close>

record Collaborators =
  mathRandom :: "nat \<Rightarrow> nat"
  buildSimplifiedLayout :: "RawNode \<Rightarrow> RawNode option \<Rightarrow> jobject"
  numberToString :: "real \<Rightarrow> string"

text \<open>
  Modelled from the spec: \<open>hasValue\<close>, \<open>isTruthy\<close> and \<open>isStrokeWeights\<close> of
  \<open>utils/identity\<close>, which the simplifier imports. \<open>hasValue\<close> returns true only if the
  field exists, is not null or undefined, and (if given) satisfies the predicate;
  \<open>isStrokeWeights\<close> is the per-side shape validation.
\<close>

definition hasValue :: "'a option \<Rightarrow> bool" where
  "hasValue field = (field \<noteq> None)"

definition hasValueWith :: "('a \<Rightarrow> bool) \<Rightarrow> 'a option \<Rightarrow> bool" where
  "hasValueWith predicate field = (case field of None \<Rightarrow> False | Some v \<Rightarrow> predicate v)"

definition isTruthy :: "string \<Rightarrow> bool" where
  "isTruthy s = (s \<noteq> [])"

definition isStrokeWeights :: "jv \<Rightarrow> bool" where
  "isStrokeWeights v =
     (case v of
        JObj kvs \<Rightarrow> hasKey ''top'' kvs \<and> hasKey ''right'' kvs \<and> hasKey ''bottom'' kvs
                     \<and> hasKey ''left'' kvs
      | _ \<Rightarrow> False)"

subsection \<open>parseNode: the fields of the node itself\<close>

text \<open>
  \<^verbatim>\<open>
  const style = n.style;
  const textStyle = {
    fontFamily: style.fontFamily,
    fontWeight: style.fontWeight,
    fontSize: style.fontSize,
    lineHeight: style.lineHeightPx ?? style.fontSize,
    letterSpacing:
      style.letterSpacing && style.letterSpacing !== 0 ? style.letterSpacing : undefined,
    textCase: style.textCase,
    textAlignHorizontal: style.textAlignHorizontal,
    textAlignVertical: style.textAlignVertical,
  };
  \<close>
\<close>

definition textStyleOf :: "jobject \<Rightarrow> jv" where
  "textStyleOf style =
     JObj [(''fontFamily'', getProp ''fontFamily'' style),
           (''fontWeight'', getProp ''fontWeight'' style),
           (''fontSize'', getProp ''fontSize'' style),
           (''lineHeight'', coalesce (getProp ''lineHeightPx'' style) (getProp ''fontSize'' style)),
           (''letterSpacing'',
              if truthy (getProp ''letterSpacing'' style) \<and> getProp ''letterSpacing'' style \<noteq> JNum 0
              then getProp ''letterSpacing'' style else JUndef),
           (''textCase'', getProp ''textCase'' style),
           (''textAlignHorizontal'', getProp ''textAlignHorizontal'' style),
           (''textAlignVertical'', getProp ''textAlignVertical'' style)]"

text \<open>
  Each block of \<open>parseNode\<close> is a step on the pair of the node under construction
  (\<open>simplified\<close>) and the state of the run.
  \<^verbatim>\<open>
  if (hasValue("style", n) && Object.keys(n.style).length) {
    ...
    simplified.textStyle = findOrCreateVar(globalVars, textStyle);
  }
  \<close>
\<close>

definition registerProp ::
  "(nat \<Rightarrow> nat) \<Rightarrow> string \<Rightarrow> jv \<Rightarrow> jobject \<times> run_state \<Rightarrow> jobject \<times> run_state" where
  "registerProp rnd key payload acc =
     (let r = findOrCreateVar rnd (snd acc) payload
      in (setProp key (JStr (fst r)) (fst acc), snd r))"

definition parseTextStyle ::
  "(nat \<Rightarrow> nat) \<Rightarrow> RawNode \<Rightarrow> jobject \<times> run_state \<Rightarrow> jobject \<times> run_state" where
  "parseTextStyle rnd n acc =
     (case node_style n of
        None \<Rightarrow> acc
      | Some style \<Rightarrow>
          if length style \<noteq> 0 then registerProp rnd ''textStyle'' (textStyleOf style) acc
          else acc)"

text \<open>
  \<^verbatim>\<open>
  if (hasValue("fills", n) && Array.isArray(n.fills) && n.fills.length) {
    const fills = n.fills.map(parsePaint);
    simplified.fills = findOrCreateVar(globalVars, fills);
  }
  \<close>
  and the same for \<open>strokes\<close>.
\<close>

definition parsePaints ::
  "(nat \<Rightarrow> nat) \<Rightarrow> string \<Rightarrow> Paint list option \<Rightarrow> jobject \<times> run_state
     \<Rightarrow> error + (jobject \<times> run_state)" where
  "parsePaints rnd key paints acc =
     (case paints of
        None \<Rightarrow> Inr acc
      | Some ps \<Rightarrow>
          if length ps \<noteq> 0 then
            (case mapParsePaint ps of
               Inl e \<Rightarrow> Inl e
             | Inr fills \<Rightarrow> Inr (registerProp rnd key (JArr fills) acc))
          else Inr acc)"

text \<open>
  \<^verbatim>\<open>
  if (hasValue("styles", n)) {
    simplified.styles = findOrCreateVar(globalVars, n.styles);
  }
  \<close>
\<close>

definition parseStyles ::
  "(nat \<Rightarrow> nat) \<Rightarrow> RawNode \<Rightarrow> jobject \<times> run_state \<Rightarrow> jobject \<times> run_state" where
  "parseStyles rnd n acc =
     (case node_styles n of
        None \<Rightarrow> acc
      | Some styles \<Rightarrow> registerProp rnd ''styles'' styles acc)"

text \<open>
  \<^verbatim>\<open>
  const layout = buildSimplifiedLayout(n, parent);
  if (Object.keys(layout).length > 1) {
    simplified.layout = findOrCreateVar(globalVars, layout);
  }
  \<close>
\<close>

definition parseLayout ::
  "Collaborators \<Rightarrow> RawNode \<Rightarrow> RawNode option \<Rightarrow> jobject \<times> run_state
     \<Rightarrow> jobject \<times> run_state" where
  "parseLayout E n parent acc =
     (let layout = buildSimplifiedLayout E n parent
      in if length layout > 1 then registerProp (mathRandom E) ''layout'' (JObj layout) acc
         else acc)"

text \<open>
  \<^verbatim>\<open>
  if (hasValue("characters", n, isTruthy)) simplified.text = n.characters;
  if (hasValue("strokeWeight", n) && typeof n.strokeWeight === "number" &&
      simplified.strokes?.length) simplified.strokeWeight = n.strokeWeight;
  if (hasValue("strokeDashes", n) && Array.isArray(n.strokeDashes) && n.strokeDashes.length)
    simplified.strokeDashes = n.strokeDashes;
  \<close>
\<close>

definition parseCharacters :: "RawNode \<Rightarrow> jobject \<Rightarrow> jobject" where
  "parseCharacters n simplified =
     (if hasValueWith isTruthy (node_characters n)
      then setProp ''text'' (optStr (node_characters n)) simplified
      else simplified)"

definition stringLength :: "jv \<Rightarrow> nat" where
  "stringLength v = (case v of JStr s \<Rightarrow> length s | _ \<Rightarrow> 0)"

definition parseStrokeWeight :: "RawNode \<Rightarrow> jobject \<Rightarrow> jobject" where
  "parseStrokeWeight n simplified =
     (case node_strokeWeight n of
        None \<Rightarrow> simplified
      | Some w \<Rightarrow>
          if stringLength (getProp ''strokes'' simplified) \<noteq> 0
          then setProp ''strokeWeight'' (JNum w) simplified
          else simplified)"

definition parseStrokeDashes :: "RawNode \<Rightarrow> jobject \<Rightarrow> jobject" where
  "parseStrokeDashes n simplified =
     (case node_strokeDashes n of
        None \<Rightarrow> simplified
      | Some ds \<Rightarrow>
          if length ds \<noteq> 0 then setProp ''strokeDashes'' (JArr (map JNum ds)) simplified
          else simplified)"

text \<open>
  \<^verbatim>\<open>
  if (hasValue("individualStrokeWeights", n, isStrokeWeights)) {
    const strokeWeights = {
      top: n.individualStrokeWeights.top,
      right: n.individualStrokeWeights.right,
      bottom: n.individualStrokeWeights.bottom,
      left: n.individualStrokeWeights.left,
    };
    simplified.individualStrokeWeights = findOrCreateVar(globalVars, strokeWeights);
  }
  \<close>
\<close>

definition parseIndividualStrokeWeights ::
  "(nat \<Rightarrow> nat) \<Rightarrow> RawNode \<Rightarrow> jobject \<times> run_state \<Rightarrow> jobject \<times> run_state" where
  "parseIndividualStrokeWeights rnd n acc =
     (case node_individualStrokeWeights n of
        None \<Rightarrow> acc
      | Some w \<Rightarrow>
          if isStrokeWeights w then
            registerProp rnd ''individualStrokeWeights''
              (JObj [(''top'', propOf ''top'' w), (''right'', propOf ''right'' w),
                     (''bottom'', propOf ''bottom'' w), (''left'', propOf ''left'' w)]) acc
          else acc)"

text \<open>
  \<^verbatim>\<open>
  if (hasValue("opacity", n) && typeof n.opacity === "number") simplified.opacity = n.opacity;
  if (hasValue("cornerRadius", n) && typeof n.cornerRadius === "number")
    simplified.borderRadius = `${n.cornerRadius}px`;
  \<close>
\<close>

definition parseOpacity :: "RawNode \<Rightarrow> jobject \<Rightarrow> jobject" where
  "parseOpacity n simplified =
     (case node_opacity n of
        None \<Rightarrow> simplified
      | Some x \<Rightarrow> setProp ''opacity'' (JNum x) simplified)"

definition parseCornerRadius :: "Collaborators \<Rightarrow> RawNode \<Rightarrow> jobject \<Rightarrow> jobject" where
  "parseCornerRadius E n simplified =
     (case node_cornerRadius n of
        None \<Rightarrow> simplified
      | Some x \<Rightarrow> setProp ''borderRadius'' (JStr (numberToString E x @ ''px'')) simplified)"

text \<open>
  The blocks in the order of the source, from \<open>const simplified = { id, type }\<close> to the
  corner radius. Only the two paint lists can throw.
\<close>

definition mapFst :: "('a \<Rightarrow> 'b) \<Rightarrow> 'a \<times> 'c \<Rightarrow> 'b \<times> 'c" where
  "mapFst f acc = (f (fst acc), snd acc)"

definition parseOwnFields ::
  "Collaborators \<Rightarrow> run_state \<Rightarrow> RawNode \<Rightarrow> RawNode option \<Rightarrow> error + (jobject \<times> run_state)" where
  "parseOwnFields E st n parent =
     (let rnd = mathRandom E;
          acc0 = ([(''id'', JStr (node_id n)), (''type'', JStr (node_type n))], st);
          acc1 = parseTextStyle rnd n acc0
      in case parsePaints rnd ''fills'' (node_fills n) acc1 of
           Inl e \<Rightarrow> Inl e
         | Inr acc2 \<Rightarrow>
             (case parsePaints rnd ''strokes'' (node_strokes n) (parseStyles rnd n acc2) of
                Inl e \<Rightarrow> Inl e
              | Inr acc4 \<Rightarrow>
                  Inr (mapFst (parseCornerRadius E n)
                      (mapFst (parseOpacity n)
                      (parseIndividualStrokeWeights rnd n
                      (mapFst (parseStrokeDashes n)
                      (mapFst (parseStrokeWeight n)
                      (mapFst (parseCharacters n)
                      (parseLayout E n parent acc4)))))))))"

subsection \<open>parseNode: the VECTOR bookkeeping\<close>

text \<open>
  \<^verbatim>\<open>
  if (type === "VECTOR") {
    const{ id: nodeId, ...vectorNodeData } = simplified;
    const vectorId = findOrCreateVar(globalVars, vectorNodeData);
    if (parent) {
      globalVars.vectorParents[parent.id] = {
        parentId: parent.id,
        parentName: parent.name,
        parentType: parent.type,
        childrenId: vectorId
      };
    }
  }
  \<close>
  Writing into \<open>globalVars.vectorParents\<close> throws when the store has no such entry.
\<close>

definition vectorParentRecord :: "RawNode \<Rightarrow> string \<Rightarrow> jv" where
  "vectorParentRecord parent vectorId =
     JObj [(''parentId'', JStr (node_id parent)),
           (''parentName'', JStr (node_name parent)),
           (''parentType'', JStr (node_type parent)),
           (''childrenId'', JStr vectorId)]"

definition recordVectorParent :: "RawNode \<Rightarrow> string \<Rightarrow> run_state \<Rightarrow> error + run_state" where
  "recordVectorParent parent vectorId st =
     (case getProp ''vectorParents'' (globalVars st) of
        JObj vp \<Rightarrow>
          Inr (st\<lparr>globalVars :=
                    setProp ''vectorParents''
                      (JObj (setProp (node_id parent) (vectorParentRecord parent vectorId) vp))
                      (globalVars st)\<rparr>)
      | JUndef \<Rightarrow> Inl TypeError
      | JNull \<Rightarrow> Inl TypeError
      | _ \<Rightarrow> Inl NotModelled)"

definition registerVector ::
  "(nat \<Rightarrow> nat) \<Rightarrow> RawNode \<Rightarrow> RawNode option \<Rightarrow> jobject \<Rightarrow> run_state \<Rightarrow> error + run_state" where
  "registerVector rnd n parent simplified st =
     (if node_type n = ''VECTOR'' then
        (let vectorNodeData = JObj (deleteProp ''id'' simplified);
             r = findOrCreateVar rnd st vectorNodeData
         in case parent of
              None \<Rightarrow> Inr (snd r)
            | Some p \<Rightarrow> recordVectorParent p (fst r) (snd r))
      else Inr st)"

subsection \<open>parseNode\<close>

text \<open>\<open>results.filter((child) => child !== null && child !== undefined)\<close>.\<close>

fun nonNull :: "'a option list \<Rightarrow> 'a list" where
  "nonNull [] = []"
| "nonNull (None # rs) = nonNull rs"
| "nonNull (Some x # rs) = x # nonNull rs"

definition isVisible :: "RawNode \<Rightarrow> bool" where
  "isVisible n = (case node_visible n of None \<Rightarrow> True | Some b \<Rightarrow> b)"

definition withChildren :: "jv list \<Rightarrow> jobject \<Rightarrow> jobject" where
  "withChildren children simplified =
     (if length children \<noteq> 0 then setProp ''children'' (JArr children) simplified
      else simplified)"

text \<open>
  \<^verbatim>\<open>
  function parseNode(globalVars, n, parent?): SimplifiedNode | null {
    const { id, type, visible = true } = n;
    if (!visible) return null
    const simplified: SimplifiedNode = { id, type };
    ...
    if (hasValue("children", n) && n.children.length > 0) {
      let children = n.children.map((child) => parseNode(globalVars, child, n))
                               .filter((child) => child !== null && child !== undefined);
      if (children.length) simplified.children = children
    }
    if (type === "VECTOR") { ... }
    return removeEmptyKeys(simplified);
  }
  \<close>
  \<open>parseNodes\<close> is the \<open>map\<close> of \<open>parseNode\<close> over a list of nodes with one parent, left to
  right, on the shared store; \<open>null\<close> is \<open>None\<close>.
\<close>

function parseNode ::
    "Collaborators \<Rightarrow> run_state \<Rightarrow> RawNode \<Rightarrow> RawNode option \<Rightarrow> error + (jv option \<times> run_state)"
  and parseNodes ::
    "Collaborators \<Rightarrow> run_state \<Rightarrow> RawNode list \<Rightarrow> RawNode option
       \<Rightarrow> error + (jv option list \<times> run_state)"
where
  "parseNode E st n parent =
     (if \<not> isVisible n then Inr (None, st)
      else
        case parseOwnFields E st n parent of
          Inl e \<Rightarrow> Inl e
        | Inr acc \<Rightarrow>
            (case (if length (node_children n) > 0
                   then parseNodes E (snd acc) (node_children n) (Some n)
                   else Inr ([], snd acc)) of
               Inl e \<Rightarrow> Inl e
             | Inr res \<Rightarrow>
                 (let simplified = withChildren (nonNull (fst res)) (fst acc)
                  in case registerVector (mathRandom E) n parent simplified (snd res) of
                       Inl e \<Rightarrow> Inl e
                     | Inr st' \<Rightarrow> Inr (Some (removeEmptyKeys (JObj simplified)), st'))))"
| "parseNodes E st [] parent = Inr ([], st)"
| "parseNodes E st (c # cs) parent =
     (case parseNode E st c parent of
        Inl e \<Rightarrow> Inl e
      | Inr r \<Rightarrow>
          (case parseNodes E (snd r) cs parent of
             Inl e \<Rightarrow> Inl e
           | Inr rs \<Rightarrow> Inr (fst r # fst rs, snd rs)))"
  by pat_completeness auto
termination
proof (relation "measure (\<lambda>x. case x of
          Inl (E, st, n, parent) \<Rightarrow> 2 * size n
        | Inr (E, st, ns, parent) \<Rightarrow> 2 * size_list size ns + 1)")
  show "wf (measure (\<lambda>x. case x of
          Inl (E, st, n, parent) \<Rightarrow> 2 * size n
        | Inr (E, st, ns, parent) \<Rightarrow> 2 * size_list size ns + 1))"
    by simp
next
  fix E :: Collaborators and st :: run_state and n :: RawNode and parent :: "RawNode option"
    and x2 :: "jobject \<times> run_state"
  show "(Inr (E, snd x2, node_children n, Some n), Inl (E, st, n, parent))
          \<in> measure (\<lambda>x. case x of
              Inl (E, st, n, parent) \<Rightarrow> 2 * size n
            | Inr (E, st, ns, parent) \<Rightarrow> 2 * size_list size ns + 1)"
    by (cases n) simp
qed simp_all


subsection \<open>findNodeById and the rewrite of a parent\<close>

text \<open>
  \<^verbatim>\<open>
  const findNodeById = (id: string, nodes: SimplifiedNode[]): SimplifiedNode | undefined => {
    for (const node of nodes) {
      if (node?.id === id) return node;
      if (node?.children && node.children.length > 0) {
        const foundInChildren = findNodeById(id, node.children);
        if (foundInChildren) return foundInChildren;
      }
    }
    return undefined;
  };
  \<close>
  The \<open>children\<close> of a simplified node are an array of nodes or absent.
\<close>

definition childNodes :: "jv \<Rightarrow> jv list" where
  "childNodes node = (case propOf ''children'' node of JArr cs \<Rightarrow> cs | _ \<Rightarrow> [])"

function findNodeById :: "string \<Rightarrow> jv list \<Rightarrow> jv option" where
  "findNodeById i [] = None"
| "findNodeById i (node # nodes) =
     (if propOf ''id'' node = JStr i then Some node
      else if length (childNodes node) > 0 then
        (case findNodeById i (childNodes node) of
           Some foundInChildren \<Rightarrow> Some foundInChildren
         | None \<Rightarrow> findNodeById i nodes)
      else findNodeById i nodes)"
  by pat_completeness auto
termination
proof (relation "measure (\<lambda>(i, nodes). size_list size nodes)")
  show "wf (measure (\<lambda>(i, nodes). size_list size nodes))"
    by simp
next
  fix i :: string and node :: jv and nodes :: "jv list"
  have entry: "map_of kvs k = Some v \<Longrightarrow> size v \<le> size_list (size_prod (\<lambda>_. 0) size) kvs"
    for kvs :: jobject and k v
    by (induction kvs) (auto split: if_splits)
  have "size_list size (childNodes node) \<le> size node"
  proof (cases node)
    case (JObj kvs)
    show ?thesis
    proof (cases "map_of kvs ''children''")
      case None
      then show ?thesis using JObj by (simp add: childNodes_def getProp_def)
    next
      case (Some v)
      from entry [OF Some] show ?thesis
        using JObj Some by (cases v) (simp_all add: childNodes_def getProp_def)
    qed
  qed (simp_all add: childNodes_def)
  then show "((i, childNodes node), i, node # nodes) \<in> measure (\<lambda>(i, nodes). size_list size nodes)"
    by simp
qed simp_all

text \<open>
  \<^verbatim>\<open>
  let parentNode = findNodeById(parentId, simplifiedNodes);
  if (parentNode) {
    const {id} = parentNode;
    Object.keys(parentNode).forEach(key => { delete parentNode[key as keyof SimplifiedNode]; })
    Object.assign(parentNode, { id, type: "IMAGE" })
  }
  \<close>
  The node is changed in place. Every node of the tree is an object of its own (each
  \<open>parseNode\<close> returns the fresh copy that \<open>removeEmptyKeys\<close> builds), so the change is the
  replacement, in the tree, of the node that \<open>findNodeById\<close> returns: \<open>stubNodeById\<close>
  walks the tree as \<open>findNodeById\<close> does and replaces that node.
\<close>

definition imageStub :: "jv \<Rightarrow> jv" where
  "imageStub parentNode = JObj [(''id'', propOf ''id'' parentNode), (''type'', JStr ''IMAGE'')]"

definition setChildNodes :: "jv list \<Rightarrow> jv \<Rightarrow> jv" where
  "setChildNodes cs node =
     (case node of JObj kvs \<Rightarrow> JObj (setProp ''children'' (JArr cs) kvs) | _ \<Rightarrow> node)"

function stubNodeById :: "string \<Rightarrow> jv list \<Rightarrow> jv list" where
  "stubNodeById i [] = []"
| "stubNodeById i (node # nodes) =
     (if propOf ''id'' node = JStr i then imageStub node # nodes
      else if length (childNodes node) > 0 then
        (case findNodeById i (childNodes node) of
           Some foundInChildren \<Rightarrow> setChildNodes (stubNodeById i (childNodes node)) node # nodes
         | None \<Rightarrow> node # stubNodeById i nodes)
      else node # stubNodeById i nodes)"
  by pat_completeness auto
termination
proof (relation "measure (\<lambda>(i, nodes). size_list size nodes)")
  show "wf (measure (\<lambda>(i, nodes). size_list size nodes))"
    by simp
next
  fix i :: string and node :: jv and nodes :: "jv list"
  have entry: "map_of kvs k = Some v \<Longrightarrow> size v \<le> size_list (size_prod (\<lambda>_. 0) size) kvs"
    for kvs :: jobject and k v
    by (induction kvs) (auto split: if_splits)
  have "size_list size (childNodes node) \<le> size node"
  proof (cases node)
    case (JObj kvs)
    show ?thesis
    proof (cases "map_of kvs ''children''")
      case None
      then show ?thesis using JObj by (simp add: childNodes_def getProp_def)
    next
      case (Some v)
      from entry [OF Some] show ?thesis
        using JObj Some by (cases v) (simp_all add: childNodes_def getProp_def)
    qed
  qed (simp_all add: childNodes_def)
  then show "((i, childNodes node), i, node # nodes) \<in> measure (\<lambda>(i, nodes). size_list size nodes)"
    by simp
qed simp_all

definition stubParent :: "string \<Rightarrow> jv list \<Rightarrow> jv list" where
  "stubParent parentId simplifiedNodes =
     (case findNodeById parentId simplifiedNodes of
        None \<Rightarrow> simplifiedNodes
      | Some parentNode \<Rightarrow> stubNodeById parentId simplifiedNodes)"

subsection \<open>parseGlobalVars\<close>

text \<open>
  \<^verbatim>\<open>
  const childrenToParents: Record<string, string[]> = {};
  Object.entries(globalVars.vectorParents).forEach(([parentId, data]) => {
    const { childrenId } = data as { childrenId: string };
    if (!childrenToParents[childrenId]) {
      childrenToParents[childrenId] = [];
      delete globalVars[childrenId]
    }
    childrenToParents[childrenId].push(parentId);
  });
  \<close>
  \<open>childrenToParents\<close> is a plain object, so a \<open>childrenId\<close> that names a property of
  \<open>Object.prototype\<close> reads that property, skips the initialisation and fails at \<open>push\<close>.
\<close>

definition objectPrototypeKeys :: "string list" where
  "objectPrototypeKeys =
     [''constructor'', ''__defineGetter__'', ''__defineSetter__'', ''hasOwnProperty'',
      ''__lookupGetter__'', ''__lookupSetter__'', ''isPrototypeOf'', ''propertyIsEnumerable'',
      ''toString'', ''valueOf'', ''__proto__'', ''toLocaleString'']"

type_synonym grouping = "(string \<times> string list) list \<times> jobject"

definition groupEntry :: "string \<Rightarrow> string \<Rightarrow> grouping \<Rightarrow> grouping" where
  "groupEntry parentId childrenId acc =
     (let acc1 = (case map_of (fst acc) childrenId of
                    None \<Rightarrow> (setProp childrenId [] (fst acc), deleteProp childrenId (snd acc))
                  | Some parentIds \<Rightarrow> acc);
          parentIds = (case map_of (fst acc1) childrenId of None \<Rightarrow> [] | Some ps \<Rightarrow> ps)
      in (setProp childrenId (parentIds @ [parentId]) (fst acc1), snd acc1))"

fun groupVectorParents :: "jobject \<Rightarrow> grouping \<Rightarrow> error + grouping" where
  "groupVectorParents [] acc = Inr acc"
| "groupVectorParents (entry # entries) acc =
     (case propOf ''childrenId'' (snd entry) of
        JStr childrenId \<Rightarrow>
          if childrenId \<in> set objectPrototypeKeys then Inl TypeError
          else groupVectorParents entries (groupEntry (fst entry) childrenId acc)
      | _ \<Rightarrow> Inl NotModelled)"

text \<open>
  \<^verbatim>\<open>
  if (simplifiedNodes.length){
    Object.values(childrenToParents).forEach((parentIds) => {
      parentIds.forEach(parentId => { ... });
    });
  }
  globalVars.childrenToParents = childrenToParents;
  delete globalVars.vectorParents;
  return globalVars;
  \<close>
  The function returns the store; the nodes, which it changes in place, are returned with it.
\<close>

definition stubParents :: "(string \<times> string list) list \<Rightarrow> jv list \<Rightarrow> jv list" where
  "stubParents childrenToParents simplifiedNodes =
     (if length simplifiedNodes \<noteq> 0
      then foldl (\<lambda>nodes parentId. stubParent parentId nodes) simplifiedNodes
             (concat (map snd childrenToParents))
      else simplifiedNodes)"

definition childrenToParentsObject :: "(string \<times> string list) list \<Rightarrow> jv" where
  "childrenToParentsObject childrenToParents =
     JObj (map (\<lambda>kv. (fst kv, JArr (map JStr (snd kv)))) childrenToParents)"

definition parseGlobalVars :: "jobject \<Rightarrow> jv list \<Rightarrow> error + (jobject \<times> jv list)" where
  "parseGlobalVars gv simplifiedNodes =
     (case getProp ''vectorParents'' gv of
        JObj vp \<Rightarrow>
          (case groupVectorParents vp ([], gv) of
             Inl e \<Rightarrow> Inl e
           | Inr acc \<Rightarrow>
               Inr (deleteProp ''vectorParents''
                      (setProp ''childrenToParents'' (childrenToParentsObject (fst acc)) (snd acc)),
                    stubParents (fst acc) simplifiedNodes))
      | JUndef \<Rightarrow> Inl TypeError
      | JNull \<Rightarrow> Inl TypeError
      | _ \<Rightarrow> Inl NotModelled)"

subsection \<open>parseFigmaFileResponse and parseFigmaResponse\<close>

record SimplifiedDesign =
  design_name :: string
  design_lastModified :: string
  design_nodes :: "jv list"
  design_globalVars :: jobject

record GetFileResponse =
  file_name :: string
  file_lastModified :: string
  file_document_children :: "RawNode list"

text \<open>The \<open>nodes\<close> of a \<open>GetFileNodesResponse\<close>: the \<open>document\<close> of each entry, in the order
  of \<open>Object.values\<close>.\<close>

record GetFileNodesResponse =
  nodes_name :: string
  nodes_lastModified :: string
  nodes_documents :: "RawNode list"

definition initialState :: run_state where
  "initialState = \<lparr>globalVars = [(''vectorParents'', JObj [])], randomCalls = 0\<rparr>"

text \<open>
  \<^verbatim>\<open>
  let globalVars: Record<string, any> = { vectorParents: {} };
  const simplifiedNodes = Object.values(document.children).map((n) => parseNode(globalVars, n))
    .filter((child) => child !== null && child !== undefined);
  globalVars = parseGlobalVars(globalVars, simplifiedNodes);
  return { name, lastModified, nodes: simplifiedNodes, globalVars };
  \<close>
\<close>

definition simplifyRoots ::
  "Collaborators \<Rightarrow> string \<Rightarrow> string \<Rightarrow> RawNode list \<Rightarrow> error + SimplifiedDesign" where
  "simplifyRoots E name lastModified roots =
     (case parseNodes E initialState roots None of
        Inl e \<Rightarrow> Inl e
      | Inr res \<Rightarrow>
          (case parseGlobalVars (globalVars (snd res)) (nonNull (fst res)) of
             Inl e \<Rightarrow> Inl e
           | Inr out \<Rightarrow>
               Inr \<lparr>design_name = name, design_lastModified = lastModified,
                    design_nodes = snd out, design_globalVars = fst out\<rparr>))"

definition parseFigmaFileResponse :: "Collaborators \<Rightarrow> GetFileResponse \<Rightarrow> error + SimplifiedDesign" where
  "parseFigmaFileResponse E data =
     simplifyRoots E (file_name data) (file_lastModified data) (file_document_children data)"

definition parseFigmaResponse :: "Collaborators \<Rightarrow> GetFileNodesResponse \<Rightarrow> error + SimplifiedDesign" where
  "parseFigmaResponse E data =
     simplifyRoots E (nodes_name data) (nodes_lastModified data) (nodes_documents data)"



section \<open>Notions of the statements\<close>

text \<open>
  The nodes that the walk reaches: a visible node, and below it the nodes its children
  reach, in document order. The walk returns at an invisible node before it looks at the
  children.
\<close>

function shownNodes :: "RawNode \<Rightarrow> RawNode list" where
  "shownNodes n = (if isVisible n then n # concat (map shownNodes (node_children n)) else [])"
  by pat_completeness auto
termination
proof (relation "measure size")
  fix n :: RawNode and c :: RawNode
  assume "c \<in> set (node_children n)"
  then have "size c < size n"
    by (cases n) (auto simp: less_Suc_eq_le intro: size_list_estimation')
  then show "(c, n) \<in> measure size" by simp
qed simp

text \<open>A paint whose tag \<open>parsePaint\<close> does not know, and a node that has one among its
  fills or strokes.\<close>

definition unknownPaint :: "Paint \<Rightarrow> bool" where
  "unknownPaint raw =
     (paint_type raw \<notin> set [''IMAGE'', ''SOLID'', ''GRADIENT_LINEAR'', ''GRADIENT_RADIAL'',
                                ''GRADIENT_ANGULAR'', ''GRADIENT_DIAMOND''])"

definition paintsOf :: "Paint list option \<Rightarrow> Paint list" where
  "paintsOf paints = (case paints of None \<Rightarrow> [] | Some ps \<Rightarrow> ps)"

definition hasUnknownPaint :: "RawNode \<Rightarrow> bool" where
  "hasUnknownPaint n = list_ex unknownPaint (paintsOf (node_fills n) @ paintsOf (node_strokes n))"


text \<open>Concrete inputs for the examples: collaborators whose random source spells the IDs
  \<open>var_AAAAAA\<close>, \<open>var_BBBBBB\<close>, ... in turn and whose layout has the single field \<open>mode\<close>,
  and a node with an id and a type and nothing else.\<close>

definition exampleCollaborators :: Collaborators where
  "exampleCollaborators =
     \<lparr>mathRandom = (\<lambda>i. i div 6),
      buildSimplifiedLayout = (\<lambda>n parent. [(''mode'', JStr ''none'')]),
      numberToString = (\<lambda>x. ''0'')\<rparr>"

definition plainNode :: "string \<Rightarrow> string \<Rightarrow> RawNode list \<Rightarrow> RawNode" where
  "plainNode i t cs =
     RawNode i i t None None None None None None None None None None None cs"

definition emojiPaint :: Paint where
  "emojiPaint =
     \<lparr>paint_type = ''EMOJI'', paint_imageRef = None, paint_scaleMode = None,
      paint_color = None, paint_opacity = None, paint_gradientHandlePositions = JUndef,
      paint_gradientStops = None\<rparr>"

definition emojiNode :: RawNode where
  "emojiNode =
     RawNode ''1:2'' ''Smile'' ''RECTANGLE'' None None (Some [emojiPaint]) None None None None
       None None None None []"







text \<open>
  Every node of the raw tree, reached or not, in document order.
\<close>

function allNodes :: "RawNode \<Rightarrow> RawNode list" where
  "allNodes n = n # concat (map allNodes (node_children n))"
  by pat_completeness auto
termination
proof (relation "measure size")
  fix n :: RawNode and c :: RawNode
  assume "c \<in> set (node_children n)"
  then have "size c < size n"
    by (cases n) (auto simp: less_Suc_eq_le intro: size_list_estimation')
  then show "(c, n) \<in> measure size" by simp
qed simp

text \<open>
  The shape of the node under construction before the children are added: \<open>id\<close> and \<open>type\<close>
  first, as the literal \<open>{ id, type }\<close> creates them, and no \<open>children\<close> yet.
\<close>

definition ownFields :: "RawNode \<Rightarrow> jobject \<Rightarrow> bool" where
  "ownFields n fs =
     (\<exists>rest. fs = (''id'', JStr (node_id n)) # (''type'', JStr (node_type n)) # rest
             \<and> \<not> hasKey ''children'' rest)"

text \<open>An invisible frame with a text child, for the examples.\<close>

definition hiddenNode :: RawNode where
  "hiddenNode =
     RawNode ''1:2'' ''Hidden'' ''FRAME'' (Some False) None None None None None None None None
       None None [plainNode ''1:3'' ''TEXT'' []]"

text \<open>The own properties of an object, as \<open>Object.entries\<close> lists them.\<close>

fun entriesOf :: "jv \<Rightarrow> jobject" where
  "entriesOf (JObj kvs) = kvs"
| "entriesOf v = []"


text \<open>
  The content address that a vector-parent record carries, the parents that the bucket
  records under an address, in the order of the bucket, and the buckets that the grouping
  accepts: every record carries a string that names no property of \<open>Object.prototype\<close>.
\<close>

definition recordedChildrenId :: "jv \<Rightarrow> string option" where
  "recordedChildrenId record = (case propOf ''childrenId'' record of JStr c \<Rightarrow> Some c | _ \<Rightarrow> None)"

definition parentsOf :: "string \<Rightarrow> jobject \<Rightarrow> string list" where
  "parentsOf c vp = map fst (filter (\<lambda>entry. recordedChildrenId (snd entry) = Some c) vp)"

definition wellFormedRecord :: "jv \<Rightarrow> bool" where
  "wellFormedRecord record =
     (case recordedChildrenId record of
        None \<Rightarrow> False
      | Some c \<Rightarrow> c \<notin> set objectPrototypeKeys)"

definition wellFormedBucket :: "jobject \<Rightarrow> bool" where
  "wellFormedBucket vp = (distinct (map fst vp) \<and> list_all (\<lambda>entry. wellFormedRecord (snd entry)) vp)"



text \<open>The bucket \<open>globalVars.vectorParents\<close> of a state.\<close>

definition bucketOf :: "run_state \<Rightarrow> jobject" where
  "bucketOf st = entriesOf (getProp ''vectorParents'' (globalVars st))"

text \<open>
  What a stretch of the walk may do to the store: no key is lost, and an entry other than
  the bucket is new or has another payload only if \<open>generateVarId\<close> returned its key in that
  stretch.
\<close>

definition storeStep :: "(nat \<Rightarrow> nat) \<Rightarrow> run_state \<Rightarrow> run_state \<Rightarrow> bool" where
  "storeStep rnd st st' =
     (randomCalls st \<le> randomCalls st'
      \<and> (\<forall>k. hasKey k (globalVars st) \<longrightarrow> hasKey k (globalVars st'))
      \<and> (\<forall>k. k \<noteq> ''vectorParents'' \<and> map_of (globalVars st') k \<noteq> map_of (globalVars st) k
             \<longrightarrow> (\<exists>c. randomCalls st \<le> c \<and> c < randomCalls st' \<and> k = generateVarId rnd c)))"

text \<open>
  A frame whose children are two different vectors and a rectangle, and a frame with one
  vector, for the examples.
\<close>

definition halfVector :: RawNode where
  "halfVector =
     RawNode ''1:3'' ''1:3'' ''VECTOR'' None None None None None None None None None (Some (1 / 2))
       None []"

definition twoVectorsParent :: RawNode where
  "twoVectorsParent =
     plainNode ''1:1'' ''FRAME''
       [plainNode ''1:2'' ''VECTOR'' [], halfVector, plainNode ''1:4'' ''RECTANGLE'' []]"

definition oneVectorParent :: RawNode where
  "oneVectorParent = plainNode ''2:1'' ''FRAME'' [plainNode ''2:2'' ''VECTOR'' []]"

text \<open>The store and the nodes after the walk over the two frames.\<close>

definition twoFramesStore :: jobject where
  "twoFramesStore =
     [(''vectorParents'',
       JObj [(''1:1'', vectorParentRecord twoVectorsParent ''var_BBBBBB''),
             (''2:1'', vectorParentRecord oneVectorParent ''var_AAAAAA'')]),
      (''var_AAAAAA'', JObj [(''type'', JStr ''VECTOR'')]),
      (''var_BBBBBB'', JObj [(''type'', JStr ''VECTOR''), (''opacity'', JNum (1 / 2))])]"

definition twoFramesNodes :: "jv list" where
  "twoFramesNodes =
     [JObj [(''id'', JStr ''1:1''), (''type'', JStr ''FRAME''),
            (''children'',
             JArr [JObj [(''id'', JStr ''1:2''), (''type'', JStr ''VECTOR'')],
                   JObj [(''id'', JStr ''1:3''), (''type'', JStr ''VECTOR''),
                         (''opacity'', JNum (1 / 2))],
                   JObj [(''id'', JStr ''1:4''), (''type'', JStr ''RECTANGLE'')]])],
      JObj [(''id'', JStr ''2:1''), (''type'', JStr ''FRAME''),
            (''children'', JArr [JObj [(''id'', JStr ''2:2''), (''type'', JStr ''VECTOR'')]])]]"

text \<open>
  The keys that the walk writes into the store are \<open>vectorParents\<close> and the identifiers of
  \<open>generateVarId\<close>. A state is well formed when the store has no other key and the bucket is
  an object whose records carry such a key as \<open>childrenId\<close>.
\<close>

definition storeKey :: "string \<Rightarrow> bool" where
  "storeKey k = (k = ''vectorParents'' \<or> take 4 k = ''var_'')"

definition wellFormedState :: "run_state \<Rightarrow> bool" where
  "wellFormedState st =
     (list_all (\<lambda>kv. storeKey (fst kv)) (globalVars st)
      \<and> (case getProp ''vectorParents'' (globalVars st) of
           JObj vp \<Rightarrow>
             distinct (map fst vp)
             \<and> list_all (\<lambda>entry. case recordedChildrenId (snd entry) of
                                    None \<Rightarrow> False
                                  | Some c \<Rightarrow> storeKey c) vp
         | _ \<Rightarrow> False))"





section \<open>Properties\<close>

subsection \<open>The empty-key pruner\<close>

lemma keepCleaned_iff: "keepCleaned c \<longleftrightarrow> c \<noteq> JUndef \<and> c \<noteq> JArr [] \<and> c \<noteq> JObj []"
  by (cases c) (auto simp: keepCleaned_def)

lemma removeEmptyKeys_idem: "removeEmptyKeys (removeEmptyKeys x) = removeEmptyKeys x"
proof (induction x)
  case (JObj kvs)
  have entry: "map_prod id removeEmptyKeys (map_prod id removeEmptyKeys kv)
                 = map_prod id removeEmptyKeys kv" if "kv \<in> set kvs" for kv
    using JObj.IH [of kv "snd kv"] that by (cases kv) simp
  have "map (map_prod id removeEmptyKeys)
          (filter (\<lambda>kv. keepCleaned (snd kv)) (map (map_prod id removeEmptyKeys) kvs))
        = filter (\<lambda>kv. keepCleaned (snd kv)) (map (map_prod id removeEmptyKeys) kvs)"
    using entry by (induction kvs) auto
  then show ?case by simp
qed simp_all

text \<open>
  C7. The pruner is idempotent. One application returns a value that is not an object, or
  is null, unchanged; it maps an array element by element; and it keeps a key of an object
  exactly when the pruned value is neither undefined, nor the empty array, nor the empty
  object.
\<close>

theorem removeEmptyKeys_idempotent:
  "removeEmptyKeys (removeEmptyKeys x) = removeEmptyKeys x
   \<and> (\<not> typeofObject y \<or> y = JNull \<longrightarrow> removeEmptyKeys y = y)
   \<and> removeEmptyKeys (JArr xs) = JArr (map removeEmptyKeys xs)
   \<and> removeEmptyKeys (JObj kvs) =
       JObj (filter (\<lambda>kv. snd kv \<noteq> JUndef \<and> snd kv \<noteq> JArr [] \<and> snd kv \<noteq> JObj [])
              (map (\<lambda>kv. (fst kv, removeEmptyKeys (snd kv))) kvs))"
proof -
  have unchanged: "\<not> typeofObject y \<or> y = JNull \<longrightarrow> removeEmptyKeys y = y"
    by (cases y) auto
  have entry: "map_prod id removeEmptyKeys = (\<lambda>kv. (fst kv, removeEmptyKeys (snd kv)))"
    by (rule ext) (simp add: map_prod_def split_beta)
  have object: "removeEmptyKeys (JObj kvs) =
       JObj (filter (\<lambda>kv. snd kv \<noteq> JUndef \<and> snd kv \<noteq> JArr [] \<and> snd kv \<noteq> JObj [])
              (map (\<lambda>kv. (fst kv, removeEmptyKeys (snd kv))) kvs))"
    unfolding removeEmptyKeys.simps entry by (simp add: keepCleaned_iff)
  show ?thesis
    using unchanged object removeEmptyKeys_idem [of x] by simp
qed

theorem removeEmptyKeys_idempotent_witness:
  "removeEmptyKeys (JObj [(''id'', JStr ''1:2''), (''fills'', JArr []),
       (''layout'', JObj [(''gap'', JUndef)]), (''children'', JArr [JObj [(''x'', JArr [])]])])
     = JObj [(''id'', JStr ''1:2''), (''children'', JArr [JObj []])]
   \<and> removeEmptyKeys (JObj [(''id'', JStr ''1:2''), (''children'', JArr [JObj []])])
     = JObj [(''id'', JStr ''1:2''), (''children'', JArr [JObj []])]
   \<and> \<not> typeofObject (JNum 3) \<and> removeEmptyKeys (JNum 3) = JNum 3"
  using removeEmptyKeys_idempotent
    [of "JObj [(''id'', JStr ''1:2''), (''fills'', JArr []),
           (''layout'', JObj [(''gap'', JUndef)]), (''children'', JArr [JObj [(''x'', JArr [])]])]"
        "JNum 3" "[]" "[]"]
  by (simp add: keepCleaned_def)

subsection \<open>Colours\<close>





subsection \<open>Unknown paints\<close>

lemma parsePaint_unknown: "unknownPaint raw \<Longrightarrow> parsePaint raw = Inl (UnknownPaintType (paint_type raw))"
  by (simp add: unknownPaint_def parsePaint_def)

lemma mapParsePaint_unknown: "list_ex unknownPaint ps \<Longrightarrow> isl (mapParsePaint ps)"
  by (induction ps) (auto simp: parsePaint_unknown split: sum.splits)

lemma mapParsePaint_first_unknown:
  "mapParsePaint pre = Inr fs \<Longrightarrow> unknownPaint raw \<Longrightarrow>
   mapParsePaint (pre @ raw # post) = Inl (UnknownPaintType (paint_type raw))"
  by (induction pre arbitrary: fs) (auto simp: parsePaint_unknown split: sum.splits)

lemma parsePaints_unknown:
  "list_ex unknownPaint (paintsOf paints) \<Longrightarrow> isl (parsePaints rnd key paints acc)"
  using mapParsePaint_unknown [of "paintsOf paints"]
  by (cases paints) (auto simp: parsePaints_def paintsOf_def split: sum.splits)


lemma parseOwnFields_unknown:
  assumes "hasUnknownPaint n"
  shows "isl (parseOwnFields E st n parent)"
proof (cases "parsePaints (mathRandom E) ''fills'' (node_fills n)
                (parseTextStyle (mathRandom E) n
                   ([(''id'', JStr (node_id n)), (''type'', JStr (node_type n))], st))")
  case (Inl e)
  then show ?thesis by (simp add: parseOwnFields_def Let_def)
next
  case (Inr acc2)
  have "\<not> list_ex unknownPaint (paintsOf (node_fills n))"
  proof
    assume "list_ex unknownPaint (paintsOf (node_fills n))"
    from parsePaints_unknown [OF this, of "mathRandom E" "''fills''"] Inr
    show False by (metis sum.disc(2))
  qed
  with assms have "list_ex unknownPaint (paintsOf (node_strokes n))"
    by (simp add: hasUnknownPaint_def)
  from parsePaints_unknown [OF this]
  obtain e where "parsePaints (mathRandom E) ''strokes'' (node_strokes n)
                    (parseStyles (mathRandom E) n acc2) = Inl e"
    by (metis isl_def)
  then show ?thesis using Inr by (simp add: parseOwnFields_def Let_def)
qed

declare parseNode.simps [simp del]

lemma shownNodes_invisible: "\<not> isVisible n \<Longrightarrow> shownNodes n = []"
  by simp

lemma shownNodes_visible:
  "isVisible n \<Longrightarrow> shownNodes n = n # concat (map shownNodes (node_children n))"
  by simp

declare shownNodes.simps [simp del]

lemma parse_unknown_paint:
  "list_ex hasUnknownPaint (shownNodes n) \<Longrightarrow> isl (parseNode E st n parent)"
  "list_ex hasUnknownPaint (concat (map shownNodes ns)) \<Longrightarrow> isl (parseNodes E st ns parent)"
proof (induction E st n parent and E st ns parent rule: parseNode_parseNodes.induct)
  case (1 E st n parent)
  from "1.prems" have vis: "isVisible n"
    by (cases "isVisible n") (simp_all add: shownNodes_invisible)
  show ?case
  proof (cases "parseOwnFields E st n parent")
    case (Inl e)
    then show ?thesis using vis by (simp add: parseNode.simps)
  next
    case (Inr acc)
    have "\<not> hasUnknownPaint n"
    proof
      assume "hasUnknownPaint n"
      from parseOwnFields_unknown [OF this, of E st parent] Inr
      show False by (metis sum.disc(2))
    qed
    with "1.prems" vis
    have sub: "list_ex hasUnknownPaint (concat (map shownNodes (node_children n)))"
      by (simp add: shownNodes_visible)
    then have ne: "length (node_children n) > 0"
      by (cases "node_children n") simp_all
    from "1.IH" [OF _ Inr ne sub] vis
    obtain e where "parseNodes E (snd acc) (node_children n) (Some n) = Inl e"
      by (metis isl_def)
    then show ?thesis using vis Inr ne by (simp add: parseNode.simps)
  qed
next
  case (2 E st parent)
  then show ?case by simp
next
  case (3 E st c cs parent)
  show ?case
  proof (cases "parseNode E st c parent")
    case (Inl e)
    then show ?thesis by simp
  next
    case (Inr r)
    have "\<not> list_ex hasUnknownPaint (shownNodes c)"
    proof
      assume "list_ex hasUnknownPaint (shownNodes c)"
      from "3.IH"(1) [OF this] Inr show False by (metis sum.disc(2))
    qed
    with "3.prems" have "list_ex hasUnknownPaint (concat (map shownNodes cs))"
      by simp
    from "3.IH"(2) [OF Inr this]
    obtain e where "parseNodes E (snd r) cs parent = Inl e"
      by (metis isl_def)
    then show ?thesis using Inr by simp
  qed
qed

text \<open>
  C6. \<open>parsePaint\<close> throws the unknown-paint-type error, with the tag, for every paint whose
  tag is none of the six known ones. The error ends the map over the list that holds the
  paint (it is the error of the list when the paints before it are parsed), so no list of
  fills is produced; \<open>parseNode\<close> fails for every tree in which a node that is reached has
  such a paint among its fills or strokes, and so does the whole simplification.
\<close>

theorem parsePaint_unknown_type:
  assumes "unknownPaint raw"
  shows "parsePaint raw = Inl (UnknownPaintType (paint_type raw))
    \<and> (raw \<in> set ps \<longrightarrow> isl (mapParsePaint ps))
    \<and> (mapParsePaint pre = Inr fs
         \<longrightarrow> mapParsePaint (pre @ raw # post) = Inl (UnknownPaintType (paint_type raw)))
    \<and> (m \<in> set (shownNodes n) \<and> raw \<in> set (paintsOf (node_fills m) @ paintsOf (node_strokes m))
         \<longrightarrow> isl (parseNode E st n parent))
    \<and> (m \<in> set (concat (map shownNodes roots))
         \<and> raw \<in> set (paintsOf (node_fills m) @ paintsOf (node_strokes m))
         \<longrightarrow> isl (simplifyRoots E name lastModified roots))"
proof -
  have list: "isl (mapParsePaint ps)" if "raw \<in> set ps"
    using that assms by (intro mapParsePaint_unknown) (auto simp: list_ex_iff)
  have bad: "hasUnknownPaint m"
    if "raw \<in> set (paintsOf (node_fills m) @ paintsOf (node_strokes m))"
    using that assms unfolding hasUnknownPaint_def list_ex_iff by blast
  have node: "isl (parseNode E st n parent)"
    if "m \<in> set (shownNodes n)"
      and "raw \<in> set (paintsOf (node_fills m) @ paintsOf (node_strokes m))"
    using that bad by (intro parse_unknown_paint(1)) (auto simp: list_ex_iff)
  have run: "isl (simplifyRoots E name lastModified roots)"
    if "m \<in> set (concat (map shownNodes roots))"
      and "raw \<in> set (paintsOf (node_fills m) @ paintsOf (node_strokes m))"
  proof -
    have "list_ex hasUnknownPaint (concat (map shownNodes roots))"
      using that bad unfolding list_ex_iff by blast
    from parse_unknown_paint(2) [OF this, of E initialState None]
    obtain e where "parseNodes E initialState roots None = Inl e"
      by (metis isl_def)
    then show ?thesis
      by (simp add: simplifyRoots_def)
  qed
  show ?thesis
    using parsePaint_unknown [OF assms] list mapParsePaint_first_unknown [OF _ assms] node run
    by blast
qed


theorem parsePaint_unknown_type_witness:
  "unknownPaint emojiPaint
   \<and> parsePaint emojiPaint = Inl (UnknownPaintType ''EMOJI'')
   \<and> isl (parseNode exampleCollaborators initialState
             (plainNode ''0:1'' ''FRAME'' [emojiNode]) None)
   \<and> isl (simplifyRoots exampleCollaborators ''file'' ''today''
             [plainNode ''0:1'' ''FRAME'' [emojiNode]])"
proof -
  have unknown: "unknownPaint emojiPaint"
    by (simp add: unknownPaint_def emojiPaint_def)
  have tag: "paint_type emojiPaint = ''EMOJI''"
    by (simp add: emojiPaint_def)
  have paint: "emojiPaint \<in> set (paintsOf (node_fills emojiNode) @ paintsOf (node_strokes emojiNode))"
    by (simp add: emojiNode_def paintsOf_def)
  have reached: "emojiNode \<in> set (shownNodes (plainNode ''0:1'' ''FRAME'' [emojiNode]))"
    by (simp add: shownNodes_visible isVisible_def plainNode_def emojiNode_def)
  then have reached': "emojiNode \<in> set (concat (map shownNodes [plainNode ''0:1'' ''FRAME'' [emojiNode]]))"
    by simp
  from parsePaint_unknown_type [OF unknown, of "[]" "[]" "[]" "[]" emojiNode
      "plainNode ''0:1'' ''FRAME'' [emojiNode]" exampleCollaborators initialState None
      "[plainNode ''0:1'' ''FRAME'' [emojiNode]]" "''file''" "''today''"]
    unknown paint reached reached' tag
  show ?thesis by auto
qed

subsection \<open>Objects\<close>

lemma hasKey_iff: "hasKey k kvs \<longleftrightarrow> k \<in> fst ` set kvs"
  by (simp add: hasKey_def map_of_eq_None_iff)



lemma insertKey_plain: "\<not> isArrayIndex k \<Longrightarrow> insertKey k v kvs = kvs @ [(k, v)]"
  by (induction kvs) auto

lemma map_of_insertKey_at:
  "k \<notin> fst ` set kvs \<Longrightarrow> map_of (insertKey k v kvs) x = (if x = k then Some v else map_of kvs x)"
  by (induction kvs) auto

lemma map_of_insertKey: "\<not> hasKey k kvs \<Longrightarrow> map_of (insertKey k v kvs) = (map_of kvs)(k \<mapsto> v)"
  by (rule ext) (simp add: map_of_insertKey_at hasKey_iff)

lemma map_of_replace_at:
  "map_of (map (\<lambda>kv. if fst kv = k then (k, v) else kv) kvs) x
     = (if x = k \<and> map_of kvs k \<noteq> None then Some v else map_of kvs x)"
  by (induction kvs) auto

lemma map_of_replace:
  "hasKey k kvs \<Longrightarrow> map_of (map (\<lambda>kv. if fst kv = k then (k, v) else kv) kvs) = (map_of kvs)(k \<mapsto> v)"
  by (rule ext) (simp add: map_of_replace_at hasKey_def)

lemma map_of_setProp: "map_of (setProp k v kvs) = (map_of kvs)(k \<mapsto> v)"
  by (simp add: setProp_def map_of_insertKey map_of_replace)

lemma getProp_setProp: "getProp k (setProp k' v kvs) = (if k = k' then v else getProp k kvs)"
  by (simp add: getProp_def map_of_setProp)

lemma hasKey_setProp: "hasKey k (setProp k' v kvs) \<longleftrightarrow> k = k' \<or> hasKey k kvs"
  by (simp add: hasKey_def map_of_setProp)

lemma set_insertKey: "set (insertKey k v kvs) = insert (k, v) (set kvs)"
  by (induction kvs) (auto split: if_splits)



lemma map_of_deleteProp: "map_of (deleteProp k kvs) = (map_of kvs)(k := None)"
  by (induction kvs) (auto simp: deleteProp_def fun_eq_iff)

lemma hasKey_deleteProp: "hasKey k (deleteProp k' kvs) \<longleftrightarrow> k \<noteq> k' \<and> hasKey k kvs"
  by (simp add: hasKey_def map_of_deleteProp)

lemma getProp_deleteProp: "getProp k (deleteProp k' kvs) = (if k = k' then JUndef else getProp k kvs)"
  by (simp add: getProp_def map_of_deleteProp)

subsection \<open>The global-variable store\<close>















subsection \<open>The fields of a simplified node\<close>

declare allNodes.simps [simp del]

lemma setProp_Cons:
  "k \<noteq> k0 \<Longrightarrow> \<not> isArrayIndex k \<Longrightarrow> setProp k v ((k0, v0) # kvs) = (k0, v0) # setProp k v kvs"
  by (simp add: setProp_def hasKey_def)

lemma setProp_plain: "\<not> hasKey k kvs \<Longrightarrow> \<not> isArrayIndex k \<Longrightarrow> setProp k v kvs = kvs @ [(k, v)]"
  by (simp add: setProp_def insertKey_plain)

lemma ownFields_setProp:
  assumes "ownFields n fs" and "k \<noteq> ''id''" and "k \<noteq> ''type''" and "k \<noteq> ''children''"
    and "\<not> isArrayIndex k"
  shows "ownFields n (setProp k v fs)"
proof -
  from assms(1) obtain rest
    where fs: "fs = (''id'', JStr (node_id n)) # (''type'', JStr (node_type n)) # rest"
      and none: "\<not> hasKey ''children'' rest"
    unfolding ownFields_def by blast
  have "setProp k v fs
          = (''id'', JStr (node_id n)) # (''type'', JStr (node_type n)) # setProp k v rest"
    using assms(2,3,5) by (simp add: fs setProp_Cons)
  moreover have "\<not> hasKey ''children'' (setProp k v rest)"
    using none assms(4) by (simp add: hasKey_setProp)
  ultimately show ?thesis unfolding ownFields_def by blast
qed

lemma plain_keys:
  "\<not> isArrayIndex ''textStyle''" "\<not> isArrayIndex ''fills''" "\<not> isArrayIndex ''styles''"
  "\<not> isArrayIndex ''strokes''" "\<not> isArrayIndex ''layout''" "\<not> isArrayIndex ''text''"
  "\<not> isArrayIndex ''strokeWeight''" "\<not> isArrayIndex ''strokeDashes''"
  "\<not> isArrayIndex ''individualStrokeWeights''" "\<not> isArrayIndex ''opacity''"
  "\<not> isArrayIndex ''borderRadius''" "\<not> isArrayIndex ''children''"
  "\<not> isArrayIndex ''vectorParents''" "\<not> isArrayIndex ''childrenToParents''"
  by (simp_all add: isArrayIndex_def isDigit_def)

lemma ownFields_registerProp:
  assumes "ownFields n (fst acc)" and "k \<noteq> ''id''" and "k \<noteq> ''type''" and "k \<noteq> ''children''"
    and "\<not> isArrayIndex k"
  shows "ownFields n (fst (registerProp rnd k payload acc))"
  using ownFields_setProp [OF assms] by (simp add: registerProp_def Let_def)

lemma ownFields_parseTextStyle:
  "ownFields n (fst acc) \<Longrightarrow> ownFields n (fst (parseTextStyle rnd n acc))"
  by (simp add: parseTextStyle_def ownFields_registerProp plain_keys split: option.splits)

lemma ownFields_parsePaints:
  assumes "ownFields n (fst acc)" and "parsePaints rnd k paints acc = Inr acc'"
    and "k = ''fills'' \<or> k = ''strokes''"
  shows "ownFields n (fst acc')"
proof -
  have "ownFields n (fst (registerProp rnd k payload acc))" for payload
    using assms(1,3) by (auto intro!: ownFields_registerProp simp: plain_keys)
  then show ?thesis
    using assms(1,2) by (auto simp: parsePaints_def split: option.splits if_splits sum.splits)
qed

lemma ownFields_parseStyles:
  "ownFields n (fst acc) \<Longrightarrow> ownFields n (fst (parseStyles rnd n acc))"
  by (simp add: parseStyles_def ownFields_registerProp plain_keys split: option.splits)

lemma ownFields_parseLayout:
  "ownFields n (fst acc) \<Longrightarrow> ownFields n (fst (parseLayout E n parent acc))"
  by (simp add: parseLayout_def Let_def ownFields_registerProp plain_keys)

lemma ownFields_parseCharacters:
  "ownFields n fs \<Longrightarrow> ownFields n (parseCharacters n fs)"
  by (simp add: parseCharacters_def ownFields_setProp plain_keys)

lemma ownFields_parseStrokeWeight:
  "ownFields n fs \<Longrightarrow> ownFields n (parseStrokeWeight n fs)"
  by (simp add: parseStrokeWeight_def ownFields_setProp plain_keys split: option.splits)

lemma ownFields_parseStrokeDashes:
  "ownFields n fs \<Longrightarrow> ownFields n (parseStrokeDashes n fs)"
  by (simp add: parseStrokeDashes_def ownFields_setProp plain_keys split: option.splits)

lemma ownFields_parseIndividualStrokeWeights:
  "ownFields n (fst acc) \<Longrightarrow> ownFields n (fst (parseIndividualStrokeWeights rnd n acc))"
  by (simp add: parseIndividualStrokeWeights_def ownFields_registerProp plain_keys
      split: option.splits)

lemma ownFields_parseOpacity:
  "ownFields n fs \<Longrightarrow> ownFields n (parseOpacity n fs)"
  by (simp add: parseOpacity_def ownFields_setProp plain_keys split: option.splits)

lemma ownFields_parseCornerRadius:
  "ownFields n fs \<Longrightarrow> ownFields n (parseCornerRadius E n fs)"
  by (simp add: parseCornerRadius_def ownFields_setProp plain_keys split: option.splits)

lemma ownFields_parseOwnFields:
  assumes "parseOwnFields E st n parent = Inr acc"
  shows "ownFields n (fst acc)"
proof -
  let ?rnd = "mathRandom E"
  let ?acc1 = "parseTextStyle ?rnd n ([(''id'', JStr (node_id n)), (''type'', JStr (node_type n))], st)"
  have start: "ownFields n (fst ([(''id'', JStr (node_id n)), (''type'', JStr (node_type n))], st))"
    by (simp add: ownFields_def hasKey_def)
  from assms obtain acc2 acc4
    where fills: "parsePaints ?rnd ''fills'' (node_fills n) ?acc1 = Inr acc2"
      and strokes: "parsePaints ?rnd ''strokes'' (node_strokes n) (parseStyles ?rnd n acc2) = Inr acc4"
      and acc: "acc = mapFst (parseCornerRadius E n)
                      (mapFst (parseOpacity n)
                      (parseIndividualStrokeWeights ?rnd n
                      (mapFst (parseStrokeDashes n)
                      (mapFst (parseStrokeWeight n)
                      (mapFst (parseCharacters n)
                      (parseLayout E n parent acc4))))))"
    by (auto simp: parseOwnFields_def Let_def split: sum.splits)
  have "ownFields n (fst acc2)"
    using ownFields_parsePaints [OF ownFields_parseTextStyle [OF start] fills] by simp
  then have "ownFields n (fst acc4)"
    using ownFields_parsePaints [OF ownFields_parseStyles strokes] by simp
  then show ?thesis
    by (simp add: acc mapFst_def ownFields_parseCornerRadius ownFields_parseOpacity
        ownFields_parseIndividualStrokeWeights ownFields_parseStrokeDashes
        ownFields_parseStrokeWeight ownFields_parseCharacters ownFields_parseLayout)
qed


lemma parseNode_invisible: "\<not> isVisible n \<Longrightarrow> parseNode E st n parent = Inr (None, st)"
  by (simp add: parseNode.simps)

lemma parseNode_visible:
  assumes "isVisible n" and "parseNode E st n parent = Inr (r, st')"
  obtains acc res
  where "parseOwnFields E st n parent = Inr acc"
    and "(if length (node_children n) > 0
          then parseNodes E (snd acc) (node_children n) (Some n)
          else Inr ([], snd acc)) = Inr res"
    and "registerVector (mathRandom E) n parent
           (withChildren (nonNull (fst res)) (fst acc)) (snd res) = Inr st'"
    and "r = Some (removeEmptyKeys (JObj (withChildren (nonNull (fst res)) (fst acc))))"
proof (cases "parseOwnFields E st n parent")
  case (Inl e)
  with assms show ?thesis by (simp add: parseNode.simps)
next
  case own: (Inr acc)
  show ?thesis
  proof (cases "if length (node_children n) > 0
                then parseNodes E (snd acc) (node_children n) (Some n)
                else Inr ([], snd acc)")
    case (Inl e)
    with assms own show ?thesis by (simp add: parseNode.simps)
  next
    case kids: (Inr res)
    show ?thesis
    proof (cases "registerVector (mathRandom E) n parent
                    (withChildren (nonNull (fst res)) (fst acc)) (snd res)")
      case (Inl e)
      with assms own kids show ?thesis by (simp add: parseNode.simps Let_def)
    next
      case (Inr st'')
      with assms own kids that show ?thesis by (simp add: parseNode.simps Let_def)
    qed
  qed
qed

lemma hasKey_pruned:
  "\<not> hasKey k kvs \<Longrightarrow> \<not> hasKey k (filter P (map (map_prod id f) kvs))"
  by (induction kvs) (auto simp: hasKey_def)

lemma ownFields_pruned_id:
  assumes "ownFields n fs"
  shows "propOf ''id'' (removeEmptyKeys (JObj (withChildren kids fs))) = JStr (node_id n)"
proof -
  from assms obtain rest
    where "fs = (''id'', JStr (node_id n)) # (''type'', JStr (node_type n)) # rest"
    unfolding ownFields_def by blast
  then have "\<exists>more. withChildren kids fs = (''id'', JStr (node_id n)) # more"
    by (simp add: withChildren_def setProp_Cons plain_keys)
  then show ?thesis
    by (auto simp: getProp_def keepCleaned_def)
qed

lemma ownFields_pruned_children:
  assumes "ownFields n fs" and "\<forall>kid \<in> set kids. removeEmptyKeys kid = kid"
  shows "childNodes (removeEmptyKeys (JObj (withChildren kids fs))) = kids"
proof -
  from assms(1) have none: "\<not> hasKey ''children'' fs"
    unfolding ownFields_def by (auto simp: hasKey_def)
  have pruned: "map_of (filter (\<lambda>kv. keepCleaned (snd kv)) (map (map_prod id removeEmptyKeys) fs))
                  ''children'' = None"
    using hasKey_pruned [OF none, of "\<lambda>kv. keepCleaned (snd kv)" removeEmptyKeys]
    by (simp add: hasKey_def)
  show ?thesis
  proof (cases kids)
    case Nil
    with pruned show ?thesis
      by (simp add: withChildren_def childNodes_def getProp_def)
  next
    case (Cons kid more)
    have same: "map removeEmptyKeys kids = kids"
      using assms(2) by (simp add: map_idI)
    have "withChildren kids fs = fs @ [(''children'', JArr kids)]"
      using Cons none by (simp add: withChildren_def setProp_plain plain_keys)
    then have "removeEmptyKeys (JObj (withChildren kids fs))
        = JObj (filter (\<lambda>kv. keepCleaned (snd kv)) (map (map_prod id removeEmptyKeys) fs)
                @ [(''children'', JArr kids)])"
      using Cons same by (simp add: keepCleaned_def)
    with pruned show ?thesis
      by (simp add: childNodes_def getProp_def map_add_def)
  qed
qed

subsection \<open>The nodes of the simplified tree\<close>

lemma findNodeById_single:
  "findNodeById i [s] = (if propOf ''id'' s = JStr i then Some s else findNodeById i (childNodes s))"
  by (cases "childNodes s") (simp_all split: option.splits)

lemma findNodeById_append:
  "findNodeById i (xs @ ys)
     = (case findNodeById i xs of Some found \<Rightarrow> Some found | None \<Rightarrow> findNodeById i ys)"
  by (induction xs) (simp_all split: option.splits)

lemma findNodeById_Cons:
  "findNodeById i (x # xs)
     = (case findNodeById i [x] of Some found \<Rightarrow> Some found | None \<Rightarrow> findNodeById i xs)"
  using findNodeById_append [of i "[x]" xs] by simp


declare findNodeById.simps [simp del]

lemma findNodeById_Nil [simp]: "findNodeById i [] = None"
  by (simp add: findNodeById.simps)

lemma parseNodes_Cons:
  assumes "parseNodes E st (c # cs) parent = Inr (rs, st'')"
  obtains r st' rs'
  where "parseNode E st c parent = Inr (r, st')"
    and "parseNodes E st' cs parent = Inr (rs', st'')"
    and "rs = r # rs'"
proof (cases "parseNode E st c parent")
  case (Inl e)
  with assms show ?thesis by simp
next
  case first: (Inr x)
  show ?thesis
  proof (cases "parseNodes E (snd x) cs parent")
    case (Inl e)
    with assms first show ?thesis by simp
  next
    case (Inr y)
    with assms first that [of "fst x" "snd x" "fst y"] show ?thesis by auto
  qed
qed

lemma parse_output:
  "parseNode E st n parent = Inr (r, st') \<Longrightarrow>
     (r = None \<longleftrightarrow> \<not> isVisible n)
     \<and> (\<forall>s. r = Some s \<longrightarrow>
           removeEmptyKeys s = s
           \<and> propOf ''id'' s = JStr (node_id n)
           \<and> map (propOf ''id'') (childNodes s)
               = map (\<lambda>c. JStr (node_id c)) (filter isVisible (node_children n))
           \<and> (\<forall>i. findNodeById i [s] \<noteq> None \<longrightarrow> i \<in> node_id ` set (shownNodes n)))"
  "parseNodes E st ns parent = Inr (rs, st'') \<Longrightarrow>
     length rs = length ns
     \<and> (\<forall>s \<in> set (nonNull rs). removeEmptyKeys s = s)
     \<and> map (propOf ''id'') (nonNull rs) = map (\<lambda>c. JStr (node_id c)) (filter isVisible ns)
     \<and> (\<forall>i. findNodeById i (nonNull rs) \<noteq> None
            \<longrightarrow> i \<in> node_id ` set (concat (map shownNodes ns)))"
proof (induction E st n parent and E st ns parent arbitrary: r st' and rs st''
    rule: parseNode_parseNodes.induct)
  case (1 E st n parent)
  show ?case
  proof (cases "isVisible n")
    case False
    with "1.prems" show ?thesis by (simp add: parseNode_invisible)
  next
    case True
    from parseNode_visible [OF True "1.prems"] obtain acc res
      where own: "parseOwnFields E st n parent = Inr acc"
        and kids: "(if length (node_children n) > 0
                    then parseNodes E (snd acc) (node_children n) (Some n)
                    else Inr ([], snd acc)) = Inr res"
        and r: "r = Some (removeEmptyKeys (JObj (withChildren (nonNull (fst res)) (fst acc))))"
      by blast
    let ?kids = "nonNull (fst res)"
    have below: "(\<forall>s \<in> set ?kids. removeEmptyKeys s = s)
        \<and> map (propOf ''id'') ?kids
            = map (\<lambda>c. JStr (node_id c)) (filter isVisible (node_children n))
        \<and> (\<forall>i. findNodeById i ?kids \<noteq> None
              \<longrightarrow> i \<in> node_id ` set (concat (map shownNodes (node_children n))))"
    proof (cases "length (node_children n) > 0")
      case False
      with kids show ?thesis by auto
    next
      case some: True
      with kids have "parseNodes E (snd acc) (node_children n) (Some n) = Inr (fst res, snd res)"
        by simp
      from "1.IH" [OF _ own some this] True show ?thesis by simp
    qed
    define s where "s = removeEmptyKeys (JObj (withChildren ?kids (fst acc)))"
    have fs: "ownFields n (fst acc)"
      by (rule ownFields_parseOwnFields [OF own])
    have pruned: "removeEmptyKeys s = s"
      unfolding s_def by (rule removeEmptyKeys_idem)
    have children: "childNodes s = ?kids"
      unfolding s_def using ownFields_pruned_children [OF fs] below by blast
    have ident: "propOf ''id'' s = JStr (node_id n)"
      unfolding s_def by (rule ownFields_pruned_id [OF fs])
    have found: "i \<in> node_id ` set (shownNodes n)" if "findNodeById i [s] \<noteq> None" for i
    proof (cases "i = node_id n")
      case True
      then show ?thesis using \<open>isVisible n\<close> by (simp add: shownNodes_visible)
    next
      case False
      have "findNodeById i [s] = findNodeById i ?kids"
        using False by (simp add: findNodeById_single ident children)
      with that below show ?thesis using \<open>isVisible n\<close> by (simp add: shownNodes_visible)
    qed
    from r have "r = Some s" by (simp only: s_def)
    then show ?thesis
      using True pruned children ident below found by simp
  qed
next
  case (2 E st parent)
  then show ?case by simp
next
  case (3 E st c cs parent)
  from parseNodes_Cons [OF "3.prems"] obtain r st' rs'
    where first: "parseNode E st c parent = Inr (r, st')"
      and rest: "parseNodes E st' cs parent = Inr (rs', st'')"
      and rs: "rs = r # rs'"
    by blast
  note head = "3.IH"(1) [OF first]
  from "3.IH"(2) [OF first] rest have tail:
    "length rs' = length cs
     \<and> (\<forall>s \<in> set (nonNull rs'). removeEmptyKeys s = s)
     \<and> map (propOf ''id'') (nonNull rs') = map (\<lambda>c. JStr (node_id c)) (filter isVisible cs)
     \<and> (\<forall>i. findNodeById i (nonNull rs') \<noteq> None
            \<longrightarrow> i \<in> node_id ` set (concat (map shownNodes cs)))"
    by simp
  show ?case
  proof (cases r)
    case None
    with head have "\<not> isVisible c" by simp
    with None tail show ?thesis by (simp add: rs shownNodes_invisible)
  next
    case (Some s)
    with head have vis: "isVisible c" and s: "removeEmptyKeys s = s"
      "propOf ''id'' s = JStr (node_id c)"
      "\<And>i. findNodeById i [s] \<noteq> None \<Longrightarrow> i \<in> node_id ` set (shownNodes c)"
      by auto
    have found: "i \<in> node_id ` set (concat (map shownNodes (c # cs)))"
      if "findNodeById i (s # nonNull rs') \<noteq> None" for i
    proof (cases "findNodeById i [s]")
      case None
      with that findNodeById_Cons [of i s "nonNull rs'"]
      have "findNodeById i (nonNull rs') \<noteq> None"
        by simp
      with tail have "i \<in> node_id ` set (concat (map shownNodes cs))"
        by blast
      then show ?thesis by auto
    next
      case (Some found)
      with s(3) [of i] have "i \<in> node_id ` set (shownNodes c)"
        by simp
      then show ?thesis by auto
    qed
    have list: "nonNull rs = s # nonNull rs'"
      by (simp add: rs Some)
    have "length rs = length (c # cs)"
      using tail by (simp add: rs)
    moreover have "\<forall>x \<in> set (nonNull rs). removeEmptyKeys x = x"
      using tail s(1) by (simp add: list)
    moreover have "map (propOf ''id'') (nonNull rs)
        = map (\<lambda>c. JStr (node_id c)) (filter isVisible (c # cs))"
      using tail s(2) vis by (simp add: list)
    moreover have "\<forall>i. findNodeById i (nonNull rs) \<noteq> None
        \<longrightarrow> i \<in> node_id ` set (concat (map shownNodes (c # cs)))"
      using found unfolding list by blast
    ultimately show ?thesis by blast
  qed
qed


subsection \<open>The rewrite of a parent\<close>

declare stubNodeById.simps [simp del]

lemma propOf_id_imageStub: "propOf ''id'' (imageStub node) = propOf ''id'' node"
  by (simp add: imageStub_def getProp_def)

lemma childNodes_imageStub: "childNodes (imageStub node) = []"
  by (simp add: imageStub_def childNodes_def getProp_def)

lemma propOf_id_setChildNodes: "propOf ''id'' (setChildNodes cs node) = propOf ''id'' node"
  by (cases node) (simp_all add: setChildNodes_def getProp_setProp)

lemma childNodes_setChildNodes:
  "length (childNodes node) > 0 \<Longrightarrow> childNodes (setChildNodes cs node) = cs"
  by (cases node) (simp_all add: setChildNodes_def childNodes_def getProp_setProp)

lemma findNodeById_stubNodeById:
  "findNodeById i (stubNodeById p nodes) \<noteq> None \<Longrightarrow> findNodeById i nodes \<noteq> None"
proof (induction p nodes rule: stubNodeById.induct)
  case (1 p)
  then show ?case by (simp add: stubNodeById.simps)
next
  case (2 p node nodes)
  show ?case
  proof (cases "findNodeById i [node]")
    case (Some found)
    then show ?thesis using findNodeById_Cons [of i node nodes] by simp
  next
    case None
    then have other: "propOf ''id'' node \<noteq> JStr i" and below: "findNodeById i (childNodes node) = None"
      by (simp_all add: findNodeById_single split: if_splits)
    have rest: "findNodeById i (node # nodes) = findNodeById i nodes"
      using None findNodeById_Cons [of i node nodes] by simp
    show ?thesis
    proof (cases "propOf ''id'' node = JStr p")
      case True
      then have "stubNodeById p (node # nodes) = imageStub node # nodes"
        by (simp add: stubNodeById.simps)
      moreover have "findNodeById i [imageStub node] = None"
        using other by (simp add: findNodeById_single propOf_id_imageStub childNodes_imageStub)
      ultimately show ?thesis
        using "2.prems" rest findNodeById_Cons [of i "imageStub node" nodes] by simp
    next
      case False
      show ?thesis
      proof (cases "length (childNodes node) > 0 \<and> findNodeById p (childNodes node) \<noteq> None")
        case True
        then have eq: "stubNodeById p (node # nodes)
            = setChildNodes (stubNodeById p (childNodes node)) node # nodes"
          using False by (auto simp: stubNodeById.simps)
        from True obtain y where "0 < length (childNodes node)"
          and "findNodeById p (childNodes node) = Some y"
          by auto
        from "2.IH"(2) [OF False this] below
        have "findNodeById i (stubNodeById p (childNodes node)) = None"
          by blast
        then have "findNodeById i [setChildNodes (stubNodeById p (childNodes node)) node] = None"
          using other True
          by (simp add: findNodeById_single propOf_id_setChildNodes childNodes_setChildNodes)
        then show ?thesis
          using "2.prems" rest eq
            findNodeById_Cons [of i "setChildNodes (stubNodeById p (childNodes node)) node" nodes]
          by simp
      next
        case inner: False
        then have eq: "stubNodeById p (node # nodes) = node # stubNodeById p nodes"
          using False by (auto simp: stubNodeById.simps)
        have "findNodeById i (stubNodeById p nodes) \<noteq> None"
          using "2.prems" None eq findNodeById_Cons [of i node "stubNodeById p nodes"] by simp
        moreover have "findNodeById i (stubNodeById p nodes) \<noteq> None \<Longrightarrow> findNodeById i nodes \<noteq> None"
        proof (cases "length (childNodes node) > 0")
          case True
          with inner have "findNodeById p (childNodes node) = None" by simp
          from "2.IH"(1) [OF False True this] show "findNodeById i (stubNodeById p nodes) \<noteq> None
            \<Longrightarrow> findNodeById i nodes \<noteq> None" .
        next
          case no: False
          from "2.IH"(3) [OF False no] show "findNodeById i (stubNodeById p nodes) \<noteq> None
            \<Longrightarrow> findNodeById i nodes \<noteq> None" .
        qed
        ultimately show ?thesis using rest by simp
      qed
    qed
  qed
qed

lemma findNodeById_stubParent:
  "findNodeById i (stubParent p nodes) \<noteq> None \<Longrightarrow> findNodeById i nodes \<noteq> None"
  using findNodeById_stubNodeById [of i p nodes]
  by (cases "findNodeById p nodes") (simp_all add: stubParent_def)

lemma findNodeById_stubParents_list:
  "findNodeById i (foldl (\<lambda>nodes parentId. stubParent parentId nodes) nodes ps) \<noteq> None
     \<Longrightarrow> findNodeById i nodes \<noteq> None"
proof (induction ps arbitrary: nodes)
  case Nil
  then show ?case by simp
next
  case (Cons p ps)
  from Cons.IH [of "stubParent p nodes"] Cons.prems
  have "findNodeById i (stubParent p nodes) \<noteq> None" by simp
  then show ?case by (rule findNodeById_stubParent)
qed

lemma findNodeById_stubParents:
  "findNodeById i (stubParents c2p nodes) \<noteq> None \<Longrightarrow> findNodeById i nodes \<noteq> None"
  using findNodeById_stubParents_list [of i nodes "concat (map snd c2p)"]
  by (simp add: stubParents_def split: if_splits)

lemma parseGlobalVars_nodes:
  assumes "parseGlobalVars gv nodes = Inr out"
  shows "\<exists>c2p. snd out = stubParents c2p nodes"
  using assms by (auto simp: parseGlobalVars_def split: jv.splits sum.splits)

subsection \<open>Invisible nodes\<close>

lemma shownNodes_subset:
  "m \<in> set (shownNodes n) \<Longrightarrow> isVisible m \<and> m \<in> set (allNodes n)"
proof (induction n rule: shownNodes.induct)
  case (1 n)
  show ?case
  proof (cases "isVisible n")
    case False
    with "1.prems" show ?thesis by (simp add: shownNodes_invisible)
  next
    case True
    with "1.prems" consider "m = n" | c where "c \<in> set (node_children n)" "m \<in> set (shownNodes c)"
      by (auto simp: shownNodes_visible)
    then show ?thesis
    proof cases
      case 1
      with True show ?thesis by (simp add: allNodes.simps [of n])
    next
      case 2
      with "1.IH" [OF True 2(1) 2(2)] show ?thesis
        by (auto simp: allNodes.simps [of n])
    qed
  qed
qed

lemma shown_id_visible:
  assumes "distinct (map node_id nodes)" and "m \<in> set nodes" and "\<not> isVisible m"
    and "\<forall>x \<in> set shown. isVisible x \<and> x \<in> set nodes"
  shows "node_id m \<notin> node_id ` set shown"
proof
  assume "node_id m \<in> node_id ` set shown"
  then obtain x where x: "x \<in> set shown" "node_id x = node_id m" by auto
  with assms(4) have "isVisible x" "x \<in> set nodes" by auto
  with assms(1,2) x(2) have "x = m"
    by (meson distinct_map inj_onD)
  with \<open>isVisible x\<close> assms(3) show False by simp
qed


text \<open>
  C2. \<open>parseNode\<close> returns null for a node with \<open>visible === false\<close> and leaves the store as it
  is. The children of a simplified node are the simplified visible children of the raw
  node, in their order, so the invisible children are left out. Every node that
  \<open>findNodeById\<close> can find in the tree that \<open>parseNode\<close> returns, and in the nodes of the final
  result, carries the id of a raw node that the walk reaches; when the ids of the raw nodes
  are pairwise different, the id of an invisible raw node is found nowhere in the result.
\<close>

theorem invisible_nodes_pruned:
  "(node_visible n = Some False \<longrightarrow> parseNode E st n parent = Inr (None, st))
   \<and> (parseNode E st n parent = Inr (Some s, st') \<longrightarrow>
        map (propOf ''id'') (childNodes s)
          = map (\<lambda>c. JStr (node_id c)) (filter isVisible (node_children n))
        \<and> (\<forall>i. findNodeById i [s] \<noteq> None \<longrightarrow> i \<in> node_id ` set (shownNodes n)))
   \<and> (simplifyRoots E name lastModified roots = Inr design \<longrightarrow>
        (\<forall>i. findNodeById i (design_nodes design) \<noteq> None
               \<longrightarrow> i \<in> node_id ` set (concat (map shownNodes roots)))
        \<and> (distinct (map node_id (concat (map allNodes roots)))
             \<longrightarrow> (\<forall>m \<in> set (concat (map allNodes roots)).
                    node_visible m = Some False
                    \<longrightarrow> findNodeById (node_id m) (design_nodes design) = None)))"
proof -
  have null: "parseNode E st n parent = Inr (None, st)" if "node_visible n = Some False"
    using that by (simp add: parseNode_invisible isVisible_def)
  have tree: "map (propOf ''id'') (childNodes s)
          = map (\<lambda>c. JStr (node_id c)) (filter isVisible (node_children n))
        \<and> (\<forall>i. findNodeById i [s] \<noteq> None \<longrightarrow> i \<in> node_id ` set (shownNodes n))"
    if "parseNode E st n parent = Inr (Some s, st')"
    using parse_output(1) [OF that] by simp
  have final: "(\<forall>i. findNodeById i (design_nodes design) \<noteq> None
               \<longrightarrow> i \<in> node_id ` set (concat (map shownNodes roots)))
        \<and> (distinct (map node_id (concat (map allNodes roots)))
             \<longrightarrow> (\<forall>m \<in> set (concat (map allNodes roots)).
                    node_visible m = Some False
                    \<longrightarrow> findNodeById (node_id m) (design_nodes design) = None))"
    if run: "simplifyRoots E name lastModified roots = Inr design"
  proof -
    from run obtain res out
      where walk: "parseNodes E initialState roots None = Inr res"
        and post: "parseGlobalVars (globalVars (snd res)) (nonNull (fst res)) = Inr out"
        and nodes: "design_nodes design = snd out"
      by (auto simp: simplifyRoots_def split: sum.splits)
    from parseGlobalVars_nodes [OF post] obtain c2p
      where out: "snd out = stubParents c2p (nonNull (fst res))"
      by blast
    from walk have "parseNodes E initialState roots None = Inr (fst res, snd res)"
      by simp
    from parse_output(2) [OF this]
    have walked: "findNodeById i (nonNull (fst res)) \<noteq> None
        \<Longrightarrow> i \<in> node_id ` set (concat (map shownNodes roots))" for i
      by blast
    have shown: "i \<in> node_id ` set (concat (map shownNodes roots))"
      if "findNodeById i (design_nodes design) \<noteq> None" for i
      using that walked findNodeById_stubParents [of i c2p "nonNull (fst res)"]
      by (simp add: nodes out)
    have hidden: "findNodeById (node_id m) (design_nodes design) = None"
      if "distinct (map node_id (concat (map allNodes roots)))"
        and "m \<in> set (concat (map allNodes roots))" and "node_visible m = Some False" for m
    proof -
      have "\<forall>x \<in> set (concat (map shownNodes roots)).
              isVisible x \<and> x \<in> set (concat (map allNodes roots))"
        using shownNodes_subset by auto
      moreover have "\<not> isVisible m"
        using that(3) by (simp add: isVisible_def)
      ultimately have "node_id m \<notin> node_id ` set (concat (map shownNodes roots))"
        using shown_id_visible [OF that(1,2)] by blast
      with shown [of "node_id m"] show ?thesis by blast
    qed
    show ?thesis using shown hidden by blast
  qed
  show ?thesis using null tree final by blast
qed

theorem invisible_nodes_pruned_witness:
  "parseNode exampleCollaborators initialState hiddenNode None = Inr (None, initialState)
   \<and> simplifyRoots exampleCollaborators ''file'' ''today''
        [plainNode ''0:1'' ''FRAME'' [plainNode ''1:1'' ''TEXT'' [], hiddenNode]]
      = Inr \<lparr>design_name = ''file'', design_lastModified = ''today'',
             design_nodes =
               [JObj [(''id'', JStr ''0:1''), (''type'', JStr ''FRAME''),
                      (''children'', JArr [JObj [(''id'', JStr ''1:1''), (''type'', JStr ''TEXT'')]])]],
             design_globalVars = [(''childrenToParents'', JObj [])]\<rparr>
   \<and> findNodeById ''1:2''
        [JObj [(''id'', JStr ''0:1''), (''type'', JStr ''FRAME''),
               (''children'', JArr [JObj [(''id'', JStr ''1:1''), (''type'', JStr ''TEXT'')]])]]
      = None
   \<and> findNodeById ''1:3''
        [JObj [(''id'', JStr ''0:1''), (''type'', JStr ''FRAME''),
               (''children'', JArr [JObj [(''id'', JStr ''1:1''), (''type'', JStr ''TEXT'')]])]]
      = None"
proof -
  let ?roots = "[plainNode ''0:1'' ''FRAME'' [plainNode ''1:1'' ''TEXT'' [], hiddenNode]]"
  let ?design = "\<lparr>design_name = ''file'', design_lastModified = ''today'',
             design_nodes =
               [JObj [(''id'', JStr ''0:1''), (''type'', JStr ''FRAME''),
                      (''children'', JArr [JObj [(''id'', JStr ''1:1''), (''type'', JStr ''TEXT'')]])]],
             design_globalVars = [(''childrenToParents'', JObj [])]\<rparr>"
  have hidden: "node_visible hiddenNode = Some False"
    by (simp add: hiddenNode_def)
  have run: "simplifyRoots exampleCollaborators ''file'' ''today'' ?roots = Inr ?design"
    by code_simp
  have ids: "distinct (map node_id (concat (map allNodes ?roots)))"
    by (simp add: allNodes.simps plainNode_def hiddenNode_def)
  have mem: "hiddenNode \<in> set (concat (map allNodes ?roots))"
    "plainNode ''1:3'' ''TEXT'' [] \<in> set (concat (map allNodes ?roots))"
    by (simp_all add: allNodes.simps plainNode_def hiddenNode_def)
  have id2: "node_id hiddenNode = ''1:2''"
    by (simp add: hiddenNode_def)
  from invisible_nodes_pruned [of hiddenNode exampleCollaborators initialState None
      undefined undefined "''file''" "''today''" ?roots ?design]
    hidden run ids mem(1) id2
  have "parseNode exampleCollaborators initialState hiddenNode None = Inr (None, initialState)"
    and "findNodeById ''1:2'' (design_nodes ?design) = None"
    by auto
  moreover have "findNodeById ''1:3'' (design_nodes ?design) = None"
    by code_simp
  ultimately show ?thesis using run by simp
qed

subsection \<open>Text styles\<close>


lemma getProp_Cons: "getProp k ((k', v) # kvs) = (if k = k' then v else getProp k kvs)"
  by (simp add: getProp_def)


















subsection \<open>The grouping of the vector parents\<close>

lemma distinct_insertKey:
  "distinct (map fst kvs) \<Longrightarrow> k \<notin> fst ` set kvs \<Longrightarrow> distinct (map fst (insertKey k v kvs))"
  by (induction kvs) (auto simp: set_insertKey)

lemma map_fst_replace:
  "map fst (map (\<lambda>kv. if fst kv = k then (k, v) else kv) kvs) = map fst kvs"
  by (induction kvs) auto

lemma distinct_setProp:
  assumes "distinct (map fst kvs)"
  shows "distinct (map fst (setProp k v kvs))"
proof (cases "hasKey k kvs")
  case True
  then have "map fst (setProp k v kvs) = map fst kvs"
    unfolding setProp_def by (simp only: if_True map_fst_replace)
  with assms show ?thesis by simp
next
  case False
  with assms show ?thesis
    by (simp add: setProp_def distinct_insertKey hasKey_iff)
qed

lemma distinct_deleteProp: "distinct (map fst kvs) \<Longrightarrow> distinct (map fst (deleteProp k kvs))"
  by (simp add: deleteProp_def distinct_map_filter)

lemma map_of_groupEntry_fst:
  "map_of (fst (groupEntry p c acc))
     = (map_of (fst acc))(c \<mapsto> (case map_of (fst acc) c of None \<Rightarrow> [] | Some ps \<Rightarrow> ps) @ [p])"
  by (cases "map_of (fst acc) c") (simp_all add: groupEntry_def Let_def map_of_setProp)

lemma map_of_groupEntry_snd:
  "map_of (snd (groupEntry p c acc))
     = (if map_of (fst acc) c = None then (map_of (snd acc))(c := None) else map_of (snd acc))"
  by (cases "map_of (fst acc) c") (simp_all add: groupEntry_def Let_def map_of_deleteProp)

lemma distinct_groupEntry:
  "distinct (map fst (fst acc)) \<Longrightarrow> distinct (map fst (fst (groupEntry p c acc)))"
  by (cases "map_of (fst acc) c") (simp_all add: groupEntry_def Let_def distinct_setProp)

lemma parentsOf_Nil [simp]: "parentsOf c [] = []"
  by (simp add: parentsOf_def)

lemma parentsOf_Cons:
  "parentsOf c (entry # vp)
     = (if recordedChildrenId (snd entry) = Some c then fst entry # parentsOf c vp
        else parentsOf c vp)"
  by (simp add: parentsOf_def)

lemma groupVectorParents_Cons:
  assumes "recordedChildrenId (snd entry) = Some c" and "c \<notin> set objectPrototypeKeys"
  shows "groupVectorParents (entry # vp) acc = groupVectorParents vp (groupEntry (fst entry) c acc)"
  using assms by (simp add: recordedChildrenId_def split: jv.splits)

lemma groupVectorParents_result:
  assumes "list_all (\<lambda>entry. wellFormedRecord (snd entry)) vp"
  shows "\<exists>acc'. groupVectorParents vp acc = Inr acc'
     \<and> (\<forall>c. map_of (fst acc') c
            = (if parentsOf c vp = [] then map_of (fst acc) c
               else Some ((case map_of (fst acc) c of None \<Rightarrow> [] | Some ps \<Rightarrow> ps)
                          @ parentsOf c vp)))
     \<and> (\<forall>k. map_of (snd acc') k
            = (if parentsOf k vp \<noteq> [] \<and> map_of (fst acc) k = None then None
               else map_of (snd acc) k))
     \<and> (distinct (map fst (fst acc)) \<longrightarrow> distinct (map fst (fst acc')))"
  using assms
proof (induction vp arbitrary: acc)
  case Nil
  then show ?case by simp
next
  case (Cons entry vp)
  from Cons.prems obtain c
    where c: "recordedChildrenId (snd entry) = Some c" "c \<notin> set objectPrototypeKeys"
      and rest: "list_all (\<lambda>entry. wellFormedRecord (snd entry)) vp"
    by (auto simp: wellFormedRecord_def split: option.splits)
  let ?acc1 = "groupEntry (fst entry) c acc"
  from Cons.IH [OF rest, of ?acc1] obtain acc'
    where run: "groupVectorParents vp ?acc1 = Inr acc'"
      and fst': "\<And>d. map_of (fst acc') d
            = (if parentsOf d vp = [] then map_of (fst ?acc1) d
               else Some ((case map_of (fst ?acc1) d of None \<Rightarrow> [] | Some ps \<Rightarrow> ps)
                          @ parentsOf d vp))"
      and snd': "\<And>k. map_of (snd acc') k
            = (if parentsOf k vp \<noteq> [] \<and> map_of (fst ?acc1) k = None then None
               else map_of (snd ?acc1) k)"
      and dist: "distinct (map fst (fst ?acc1)) \<longrightarrow> distinct (map fst (fst acc'))"
    by blast
  have "groupVectorParents (entry # vp) acc = Inr acc'"
    using groupVectorParents_Cons [OF c] run by simp
  moreover have "map_of (fst acc') d
            = (if parentsOf d (entry # vp) = [] then map_of (fst acc) d
               else Some ((case map_of (fst acc) d of None \<Rightarrow> [] | Some ps \<Rightarrow> ps)
                          @ parentsOf d (entry # vp)))" for d
    by (simp add: fst' [of d] map_of_groupEntry_fst parentsOf_Cons c(1))
  moreover have "map_of (snd acc') k
            = (if parentsOf k (entry # vp) \<noteq> [] \<and> map_of (fst acc) k = None then None
               else map_of (snd acc) k)" for k
    by (auto simp: snd' [of k] map_of_groupEntry_fst map_of_groupEntry_snd parentsOf_Cons c(1))
  moreover have "distinct (map fst (fst acc)) \<longrightarrow> distinct (map fst (fst acc'))"
    using dist distinct_groupEntry [of acc "fst entry" c] by blast
  ultimately show ?case by blast
qed


lemma parseGlobalVars_result:
  assumes "getProp ''vectorParents'' gv = JObj vp" and "wellFormedBucket vp"
  shows "\<exists>c2p gv1.
      parseGlobalVars gv nodes
        = Inr (deleteProp ''vectorParents''
                 (setProp ''childrenToParents'' (childrenToParentsObject c2p) gv1),
               stubParents c2p nodes)
      \<and> distinct (map fst c2p)
      \<and> (\<forall>c. map_of c2p c = (if parentsOf c vp = [] then None else Some (parentsOf c vp)))
      \<and> (\<forall>k. map_of gv1 k = (if parentsOf k vp \<noteq> [] then None else map_of gv k))"
proof -
  from assms(2) have "list_all (\<lambda>entry. wellFormedRecord (snd entry)) vp"
    by (simp add: wellFormedBucket_def)
  from groupVectorParents_result [OF this, of "([], gv)"] obtain acc'
    where run: "groupVectorParents vp ([], gv) = Inr acc'"
      and c2p: "\<And>c. map_of (fst acc') c
                  = (if parentsOf c vp = [] then None else Some (parentsOf c vp))"
      and gv1: "\<And>k. map_of (snd acc') k
                  = (if parentsOf k vp \<noteq> [] then None else map_of gv k)"
      and dist: "distinct (map fst (fst acc'))"
    by auto
  have "parseGlobalVars gv nodes
        = Inr (deleteProp ''vectorParents''
                 (setProp ''childrenToParents'' (childrenToParentsObject (fst acc')) (snd acc')),
               stubParents (fst acc') nodes)"
    using assms(1) run by (simp add: parseGlobalVars_def)
  with c2p gv1 dist show ?thesis by blast
qed

lemma propOf_childrenToParentsObject:
  "propOf c (childrenToParentsObject c2p)
     = (case map_of c2p c of None \<Rightarrow> JUndef | Some ps \<Rightarrow> JArr (map JStr ps))"
  by (induction c2p) (auto simp: childrenToParentsObject_def getProp_def)



lemma getProp_final_store:
  "getProp ''childrenToParents''
     (deleteProp ''vectorParents'' (setProp ''childrenToParents'' obj gv1)) = obj"
  by (simp add: getProp_deleteProp getProp_setProp)

lemma in_parentsOf:
  "p \<in> set (parentsOf c vp) \<longleftrightarrow> (\<exists>record. (p, record) \<in> set vp \<and> recordedChildrenId record = Some c)"
  by (force simp: parentsOf_def)

lemma parentsOf_distinct: "distinct (map fst vp) \<Longrightarrow> distinct (parentsOf c vp)"
  by (simp add: parentsOf_def distinct_map_filter)



subsection \<open>A recorded parent that is not in the tree\<close>




subsection \<open>The steps of the walk\<close>

text \<open>
  The walk changes the state only through calls of \<open>findOrCreateVar\<close> and through the
  VECTOR bookkeeping. A relation between states that is reflexive and transitive and that
  both kinds of step respect therefore relates the state before a \<open>parseNode\<close> to the state
  after it. The bookkeeping writes the address that \<open>findOrCreateVar\<close> has just returned
  under the id of the parent of a visible VECTOR node: \<open>Q\<close> says which parents the
  relation allows there.
\<close>

lemma parseOwnFields_steps:
  fixes R :: "run_state \<Rightarrow> run_state \<Rightarrow> bool"
  assumes refl: "\<And>st. R st st"
    and trans: "\<And>a b c. R a b \<Longrightarrow> R b c \<Longrightarrow> R a c"
    and var: "\<And>st v. R st (snd (findOrCreateVar (mathRandom E) st v))"
    and own: "parseOwnFields E st n parent = Inr acc"
  shows "R st (snd acc)"
proof -
  let ?rnd = "mathRandom E"
  have register: "R (snd a) (snd (registerProp ?rnd k payload a))" for a k payload
    using var by (simp add: registerProp_def Let_def)
  have style: "R (snd a) (snd (parseTextStyle ?rnd n a))" for a
    using register refl by (simp add: parseTextStyle_def split: option.splits)
  have styles: "R (snd a) (snd (parseStyles ?rnd n a))" for a
    using register refl by (simp add: parseStyles_def split: option.splits)
  have paints: "R (snd a) (snd a')" if "parsePaints ?rnd k paints a = Inr a'" for a a' k paints
  proof (cases "a' = a")
    case True
    with refl show ?thesis by simp
  next
    case False
    with that obtain fills where "a' = registerProp ?rnd k (JArr fills) a"
      by (auto simp: parsePaints_def split: option.splits if_splits sum.splits)
    with register show ?thesis by simp
  qed
  have layout: "R (snd a) (snd (parseLayout E n parent a))" for a
    using register refl by (simp add: parseLayout_def Let_def)
  have weights: "R (snd a) (snd (parseIndividualStrokeWeights ?rnd n a))" for a
    using register refl by (simp add: parseIndividualStrokeWeights_def split: option.splits)
  let ?acc0 = "([(''id'', JStr (node_id n)), (''type'', JStr (node_type n))], st)"
  let ?acc1 = "parseTextStyle ?rnd n ?acc0"
  from own obtain acc2 acc4
    where fills: "parsePaints ?rnd ''fills'' (node_fills n) ?acc1 = Inr acc2"
      and strokes: "parsePaints ?rnd ''strokes'' (node_strokes n) (parseStyles ?rnd n acc2) = Inr acc4"
      and acc: "acc = mapFst (parseCornerRadius E n)
                      (mapFst (parseOpacity n)
                      (parseIndividualStrokeWeights ?rnd n
                      (mapFst (parseStrokeDashes n)
                      (mapFst (parseStrokeWeight n)
                      (mapFst (parseCharacters n)
                      (parseLayout E n parent acc4))))))"
    by (auto simp: parseOwnFields_def Let_def split: sum.splits)
  have s1: "R st (snd ?acc1)"
    using style [of ?acc0] by simp
  have s2: "R (snd ?acc1) (snd acc2)"
    by (rule paints [OF fills])
  have s3: "R (snd acc2) (snd (parseStyles ?rnd n acc2))"
    by (rule styles)
  have s4: "R (snd (parseStyles ?rnd n acc2)) (snd acc4)"
    by (rule paints [OF strokes])
  have s5: "R (snd acc4) (snd (parseLayout E n parent acc4))"
    by (rule layout)
  have s6: "R (snd (parseLayout E n parent acc4)) (snd acc)"
    using weights [of "mapFst (parseStrokeDashes n) (mapFst (parseStrokeWeight n)
                        (mapFst (parseCharacters n) (parseLayout E n parent acc4)))"]
    by (simp add: acc mapFst_def)
  from trans [OF trans [OF trans [OF trans [OF trans [OF s1 s2] s3] s4] s5] s6]
  show ?thesis .
qed

lemma registerVector_steps:
  fixes R :: "run_state \<Rightarrow> run_state \<Rightarrow> bool" and Q :: "RawNode \<Rightarrow> bool"
  assumes refl: "\<And>st. R st st"
    and trans: "\<And>a b c. R a b \<Longrightarrow> R b c \<Longrightarrow> R a c"
    and var: "\<And>st v. R st (snd (findOrCreateVar rnd st v))"
    and reg: "\<And>st v q st'. Q q
               \<Longrightarrow> recordVectorParent q (fst (findOrCreateVar rnd st v))
                     (snd (findOrCreateVar rnd st v)) = Inr st'
               \<Longrightarrow> R (snd (findOrCreateVar rnd st v)) st'"
    and run: "registerVector rnd n parent simplified st = Inr st'"
    and allowed: "node_type n = ''VECTOR'' \<longrightarrow> (case parent of None \<Rightarrow> True | Some q \<Rightarrow> Q q)"
  shows "R st st'"
proof (cases "node_type n = ''VECTOR''")
  case False
  with run refl show ?thesis by (simp add: registerVector_def)
next
  case True
  let ?r = "findOrCreateVar rnd st (JObj (deleteProp ''id'' simplified))"
  show ?thesis
  proof (cases parent)
    case None
    with run True var [of st "JObj (deleteProp ''id'' simplified)"] show ?thesis
      by (simp add: registerVector_def Let_def)
  next
    case (Some q)
    with run True have "recordVectorParent q (fst ?r) (snd ?r) = Inr st'"
      by (simp add: registerVector_def Let_def)
    moreover from allowed True Some have "Q q" by simp
    ultimately have "R (snd ?r) st'" by (rule reg [rotated])
    with var [of st "JObj (deleteProp ''id'' simplified)"] show ?thesis by (rule trans)
  qed
qed

lemma walk_steps:
  fixes R :: "run_state \<Rightarrow> run_state \<Rightarrow> bool" and Q :: "RawNode \<Rightarrow> bool"
  assumes refl: "\<And>st. R st st"
    and trans: "\<And>a b c. R a b \<Longrightarrow> R b c \<Longrightarrow> R a c"
    and var: "\<And>st v. R st (snd (findOrCreateVar rnd st v))"
    and reg: "\<And>st v q st'. Q q
               \<Longrightarrow> recordVectorParent q (fst (findOrCreateVar rnd st v))
                     (snd (findOrCreateVar rnd st v)) = Inr st'
               \<Longrightarrow> R (snd (findOrCreateVar rnd st v)) st'"
  shows "parseNode E st n parent = Inr (r, st') \<Longrightarrow> mathRandom E = rnd \<Longrightarrow>
         (isVisible n \<and> node_type n = ''VECTOR'' \<longrightarrow> (case parent of None \<Rightarrow> True | Some q \<Rightarrow> Q q)) \<Longrightarrow>
         list_all Q (shownNodes n) \<Longrightarrow> R st st'"
    and "parseNodes E st ns parent = Inr (rs, st'') \<Longrightarrow> mathRandom E = rnd \<Longrightarrow>
         list_all (\<lambda>x. isVisible x \<and> node_type x = ''VECTOR''
                        \<longrightarrow> (case parent of None \<Rightarrow> True | Some q \<Rightarrow> Q q)) ns \<Longrightarrow>
         list_all Q (concat (map shownNodes ns)) \<Longrightarrow> R st st''"
proof (induction E st n parent and E st ns parent arbitrary: r st' and rs st''
    rule: parseNode_parseNodes.induct)
  case (1 E st n parent)
  show ?case
  proof (cases "isVisible n")
    case False
    with "1.prems"(1) refl show ?thesis by (simp add: parseNode_invisible)
  next
    case True
    from True "1.prems"(1) show ?thesis
    proof (rule parseNode_visible)
      fix acc res
      assume own: "parseOwnFields E st n parent = Inr acc"
        and kids: "(if length (node_children n) > 0
                    then parseNodes E (snd acc) (node_children n) (Some n)
                    else Inr ([], snd acc)) = Inr res"
        and vector: "registerVector (mathRandom E) n parent
                       (withChildren (nonNull (fst res)) (fst acc)) (snd res) = Inr st'"
      from "1.prems"(4) True have here: "Q n"
        and below: "list_all Q (concat (map shownNodes (node_children n)))"
        by (simp_all add: shownNodes_visible)
      have first: "R st (snd acc)"
      proof (rule parseOwnFields_steps [where R = R and E = E, OF _ _ _ own])
        show "R a a" for a by (rule refl)
        show "R a b \<Longrightarrow> R b c \<Longrightarrow> R a c" for a b c by (rule trans)
        show "R a (snd (findOrCreateVar (mathRandom E) a v))" for a v
          unfolding "1.prems"(2) by (rule var)
      qed
      have second: "R (snd acc) (snd res)"
      proof (cases "length (node_children n) > 0")
        case False
        with kids refl show ?thesis by auto
      next
        case some: True
        with kids have "parseNodes E (snd acc) (node_children n) (Some n) = Inr (fst res, snd res)"
          by simp
        from "1.IH" [OF _ own some this "1.prems"(2) _ below] True here show ?thesis
          by (simp add: list_all_iff)
      qed
      have third: "R (snd res) st'"
      proof (rule registerVector_steps [where R = R and Q = Q and rnd = rnd])
        show "R a a" for a by (rule refl)
        show "R a b \<Longrightarrow> R b c \<Longrightarrow> R a c" for a b c by (rule trans)
        show "R a (snd (findOrCreateVar rnd a v))" for a v by (rule var)
        show "Q q \<Longrightarrow> recordVectorParent q (fst (findOrCreateVar rnd a v))
                         (snd (findOrCreateVar rnd a v)) = Inr b
                \<Longrightarrow> R (snd (findOrCreateVar rnd a v)) b" for q v a b
          by (rule reg)
        show "registerVector rnd n parent (withChildren (nonNull (fst res)) (fst acc)) (snd res)
                = Inr st'"
          using vector "1.prems"(2) by simp
        show "node_type n = ''VECTOR'' \<longrightarrow> (case parent of None \<Rightarrow> True | Some q \<Rightarrow> Q q)"
          using "1.prems"(3) True by simp
      qed
      from trans [OF trans [OF first second] third] show ?thesis .
    qed
  qed
next
  case (2 E st parent)
  then show ?case using refl by simp
next
  case (3 E st c cs parent)
  from "3.prems"(1) show ?case
  proof (rule parseNodes_Cons)
    fix r st' rs'
    assume first: "parseNode E st c parent = Inr (r, st')"
      and rest: "parseNodes E st' cs parent = Inr (rs', st'')"
    from "3.IH"(1) [OF first "3.prems"(2)] "3.prems"(3,4) have "R st st'"
      by simp
    moreover from "3.IH"(2) [OF first, of rs' st''] rest "3.prems"(2,3,4) have "R st' st''"
      by simp
    ultimately show ?thesis by (rule trans)
  qed
qed


subsection \<open>The bucket of the vector parents\<close>

lemma generateVarId_not_bucket:
  "generateVarId rnd c \<noteq> ''vectorParents''" "''vectorParents'' \<noteq> generateVarId rnd c"
  by (simp_all add: generateVarId_def)

lemma findOrCreateVar_cases:
  "findOrCreateVar rnd st v = createVar rnd st v \<or> snd (findOrCreateVar rnd st v) = st"
  by (simp add: findOrCreateVar_def split: option.splits)

lemma bucketOf_createVar: "bucketOf (snd (createVar rnd st v)) = bucketOf st"
  by (simp add: createVar_def Let_def bucketOf_def getProp_setProp generateVarId_not_bucket)

lemma bucketOf_findOrCreateVar: "bucketOf (snd (findOrCreateVar rnd st v)) = bucketOf st"
  using findOrCreateVar_cases [of rnd st v] bucketOf_createVar [of rnd st v] by auto

lemma recordVectorParent_result:
  assumes "recordVectorParent q vectorId st = Inr st'"
  shows "st' = st\<lparr>globalVars := setProp ''vectorParents''
                     (JObj (setProp (node_id q) (vectorParentRecord q vectorId) (bucketOf st)))
                     (globalVars st)\<rparr>"
  using assms by (auto simp: recordVectorParent_def bucketOf_def split: jv.splits)

lemma recordVectorParent_bucket:
  assumes "recordVectorParent q vectorId st = Inr st'"
  shows "bucketOf st' = setProp (node_id q) (vectorParentRecord q vectorId) (bucketOf st)"
  unfolding recordVectorParent_result [OF assms] by (simp add: bucketOf_def getProp_setProp)

lemma parseNodes_append:
  assumes "parseNodes E st xs parent = Inr (rs1, st1)"
    and "parseNodes E st1 ys parent = Inr (rs2, st2)"
  shows "parseNodes E st (xs @ ys) parent = Inr (rs1 @ rs2, st2)"
  using assms
proof (induction xs arbitrary: st rs1)
  case Nil
  then show ?case by simp
next
  case (Cons x xs)
  from Cons.prems(1) show ?case
  proof (rule parseNodes_Cons)
    fix r st' rs'
    assume first: "parseNode E st x parent = Inr (r, st')"
      and rest: "parseNodes E st' xs parent = Inr (rs', st1)"
      and rs1: "rs1 = r # rs'"
    from Cons.IH [OF rest Cons.prems(2)] first rs1 show ?thesis by simp
  qed
qed

lemma bucket_entry_kept:
  assumes "parseNodes E st ns (Some p) = Inr (rs, st')"
    and "list_all (\<lambda>x. \<not> (isVisible x \<and> node_type x = ''VECTOR'')) ns"
    and "list_all (\<lambda>x. node_id x \<noteq> node_id p) (concat (map shownNodes ns))"
  shows "getProp (node_id p) (bucketOf st') = getProp (node_id p) (bucketOf st)"
proof (rule walk_steps(2) [where R = "\<lambda>a b. getProp (node_id p) (bucketOf b) = getProp (node_id p) (bucketOf a)"
      and Q = "\<lambda>q. node_id q \<noteq> node_id p" and rnd = "mathRandom E", OF _ _ _ _ assms(1)])
  show "getProp (node_id p) (bucketOf (snd (findOrCreateVar (mathRandom E) a v)))
          = getProp (node_id p) (bucketOf a)" for a v
    by (simp add: bucketOf_findOrCreateVar)
  show "getProp (node_id p) (bucketOf b) = getProp (node_id p) (bucketOf a)"
    if "node_id q \<noteq> node_id p" and "recordVectorParent q vectorId a = Inr b" for q vectorId a b
    using that by (simp add: recordVectorParent_bucket [OF that(2)] getProp_setProp)
  show "list_all (\<lambda>x. isVisible x \<and> node_type x = ''VECTOR''
                        \<longrightarrow> (case Some p of None \<Rightarrow> True | Some q \<Rightarrow> node_id q \<noteq> node_id p)) ns"
    using assms(2) by (simp add: list_all_iff)
  show "list_all (\<lambda>q. node_id q \<noteq> node_id p) (concat (map shownNodes ns))"
    by (rule assms(3))
qed simp_all

lemma bucket_entry_kept_later:
  assumes "parseNodes E st ns outer = Inr (rs, st')"
    and "case outer of None \<Rightarrow> True | Some q \<Rightarrow> node_id q \<noteq> node_id p"
    and "list_all (\<lambda>x. node_id x \<noteq> node_id p) (concat (map shownNodes ns))"
  shows "getProp (node_id p) (bucketOf st') = getProp (node_id p) (bucketOf st)"
proof (rule walk_steps(2) [where R = "\<lambda>a b. getProp (node_id p) (bucketOf b) = getProp (node_id p) (bucketOf a)"
      and Q = "\<lambda>q. node_id q \<noteq> node_id p" and rnd = "mathRandom E", OF _ _ _ _ assms(1)])
  show "getProp (node_id p) (bucketOf (snd (findOrCreateVar (mathRandom E) a v)))
          = getProp (node_id p) (bucketOf a)" for a v
    by (simp add: bucketOf_findOrCreateVar)
  show "getProp (node_id p) (bucketOf b) = getProp (node_id p) (bucketOf a)"
    if "node_id q \<noteq> node_id p" and "recordVectorParent q vectorId a = Inr b" for q vectorId a b
    using that by (simp add: recordVectorParent_bucket [OF that(2)] getProp_setProp)
  show "list_all (\<lambda>x. isVisible x \<and> node_type x = ''VECTOR''
                        \<longrightarrow> (case outer of None \<Rightarrow> True | Some q \<Rightarrow> node_id q \<noteq> node_id p)) ns"
    using assms(2) by (simp add: list_all_iff)
  show "list_all (\<lambda>q. node_id q \<noteq> node_id p) (concat (map shownNodes ns))"
    by (rule assms(3))
qed simp_all

lemma parseNode_vector_record:
  assumes "parseNode E st c (Some p) = Inr (r, st')" and "isVisible c" and "node_type c = ''VECTOR''"
  shows "\<exists>acc res.
      parseOwnFields E st c (Some p) = Inr acc
      \<and> (if length (node_children c) > 0
          then parseNodes E (snd acc) (node_children c) (Some c)
          else Inr ([], snd acc)) = Inr res
      \<and> getProp (node_id p) (bucketOf st')
          = vectorParentRecord p
              (fst (findOrCreateVar (mathRandom E) (snd res)
                      (JObj (deleteProp ''id'' (withChildren (nonNull (fst res)) (fst acc))))))"
  using assms(2,1)
proof (rule parseNode_visible)
  fix acc res
  assume own: "parseOwnFields E st c (Some p) = Inr acc"
    and kids: "(if length (node_children c) > 0
                then parseNodes E (snd acc) (node_children c) (Some c)
                else Inr ([], snd acc)) = Inr res"
    and vector: "registerVector (mathRandom E) c (Some p)
                   (withChildren (nonNull (fst res)) (fst acc)) (snd res) = Inr st'"
  let ?r = "findOrCreateVar (mathRandom E) (snd res)
              (JObj (deleteProp ''id'' (withChildren (nonNull (fst res)) (fst acc))))"
  from vector assms(3) have "recordVectorParent p (fst ?r) (snd ?r) = Inr st'"
    by (simp add: registerVector_def Let_def)
  from recordVectorParent_bucket [OF this]
  have "getProp (node_id p) (bucketOf st') = vectorParentRecord p (fst ?r)"
    by (simp add: getProp_setProp)
  with own kids show ?thesis by blast
qed

lemma count_list_distinct: "distinct xs \<Longrightarrow> x \<in> set xs \<Longrightarrow> count_list xs x = 1"
  by (induction xs) auto

lemma group_membership:
  assumes "distinct (map fst vp)" and "map_of vp q = Some record"
    and "recordedChildrenId record = Some a"
  shows "q \<in> set (parentsOf a' vp) \<longleftrightarrow> a' = a"
proof
  assume "q \<in> set (parentsOf a' vp)"
  then obtain record' where "(q, record') \<in> set vp" and a': "recordedChildrenId record' = Some a'"
    by (auto simp: in_parentsOf)
  with assms(1,2) have "record' = record"
    by (simp add: map_of_is_SomeI)
  with a' assms(3) show "a' = a" by simp
next
  assume "a' = a"
  with assms(2,3) show "q \<in> set (parentsOf a' vp)"
    by (auto simp: in_parentsOf dest: map_of_SomeD)
qed

text \<open>
  C10. The bucket is keyed by the id of the parent and each visible VECTOR child writes
  the record of its parent anew. When the children of a parent are parsed, the record of
  the parent after the last visible VECTOR child carries the content address that
  \<open>findOrCreateVar\<close> returned for that child, and the children after it leave the record as
  it is (no node that the walk reaches below them has the id of the parent), and so does
  every later stretch of the walk that reaches no node with the id of the parent. In the
  grouping a recorded parent is a member of the group of the address of its record, once,
  and of no other group.
\<close>

theorem vectorParents_last_child:
  assumes "parseNodes E st before (Some p) = Inr (rs1, st1)"
    and "parseNode E st1 c (Some p) = Inr (r, st2)"
    and "parseNodes E st2 after (Some p) = Inr (rs3, st3)"
    and "isVisible c" and "node_type c = ''VECTOR''"
    and "list_all (\<lambda>x. \<not> (isVisible x \<and> node_type x = ''VECTOR'')) after"
    and "list_all (\<lambda>x. node_id x \<noteq> node_id p) (concat (map shownNodes after))"
  shows "parseNodes E st (before @ c # after) (Some p) = Inr (rs1 @ r # rs3, st3)
    \<and> (\<exists>acc res.
          parseOwnFields E st1 c (Some p) = Inr acc
          \<and> (if length (node_children c) > 0
              then parseNodes E (snd acc) (node_children c) (Some c)
              else Inr ([], snd acc)) = Inr res
          \<and> getProp (node_id p) (bucketOf st3)
              = vectorParentRecord p
                  (fst (findOrCreateVar (mathRandom E) (snd res)
                          (JObj (deleteProp ''id'' (withChildren (nonNull (fst res)) (fst acc)))))))
    \<and> (parseNodes E st3 later outer = Inr (rs4, st4)
         \<and> (case outer of None \<Rightarrow> True | Some q \<Rightarrow> node_id q \<noteq> node_id p)
         \<and> list_all (\<lambda>x. node_id x \<noteq> node_id p) (concat (map shownNodes later))
        \<longrightarrow> getProp (node_id p) (bucketOf st4) = getProp (node_id p) (bucketOf st3))
    \<and> (getProp ''vectorParents'' gv = JObj vp \<and> wellFormedBucket vp
         \<and> map_of vp q = Some record \<and> recordedChildrenId record = Some a
        \<longrightarrow> (\<exists>gv' nodes'.
               parseGlobalVars gv nodes = Inr (gv', nodes')
               \<and> propOf a (getProp ''childrenToParents'' gv') = JArr (map JStr (parentsOf a vp))
               \<and> count_list (parentsOf a vp) q = 1
               \<and> (\<forall>a'. a' \<noteq> a \<longrightarrow>
                     propOf a' (getProp ''childrenToParents'' gv') = JUndef
                     \<or> propOf a' (getProp ''childrenToParents'' gv') = JArr (map JStr (parentsOf a' vp))
                        \<and> q \<notin> set (parentsOf a' vp))))"
proof -
  have "parseNodes E st1 (c # after) (Some p) = Inr (r # rs3, st3)"
    using assms(2,3) by simp
  from parseNodes_append [OF assms(1) this]
  have whole: "parseNodes E st (before @ c # after) (Some p) = Inr (rs1 @ r # rs3, st3)" .
  have kept: "getProp (node_id p) (bucketOf st3) = getProp (node_id p) (bucketOf st2)"
    by (rule bucket_entry_kept [OF assms(3,6,7)])
  from parseNode_vector_record [OF assms(2,4,5)] kept
  have recorded: "\<exists>acc res.
          parseOwnFields E st1 c (Some p) = Inr acc
          \<and> (if length (node_children c) > 0
              then parseNodes E (snd acc) (node_children c) (Some c)
              else Inr ([], snd acc)) = Inr res
          \<and> getProp (node_id p) (bucketOf st3)
              = vectorParentRecord p
                  (fst (findOrCreateVar (mathRandom E) (snd res)
                          (JObj (deleteProp ''id'' (withChildren (nonNull (fst res)) (fst acc))))))"
    by simp
  have groups: "\<exists>gv' nodes'.
               parseGlobalVars gv nodes = Inr (gv', nodes')
               \<and> propOf a (getProp ''childrenToParents'' gv') = JArr (map JStr (parentsOf a vp))
               \<and> count_list (parentsOf a vp) q = 1
               \<and> (\<forall>a'. a' \<noteq> a \<longrightarrow>
                     propOf a' (getProp ''childrenToParents'' gv') = JUndef
                     \<or> propOf a' (getProp ''childrenToParents'' gv') = JArr (map JStr (parentsOf a' vp))
                        \<and> q \<notin> set (parentsOf a' vp))"
    if bucket: "getProp ''vectorParents'' gv = JObj vp" and formed: "wellFormedBucket vp"
      and entry: "map_of vp q = Some record" and address: "recordedChildrenId record = Some a"
  proof -
    from formed have dist: "distinct (map fst vp)"
      by (simp add: wellFormedBucket_def)
    note member = group_membership [OF dist entry address]
    from parseGlobalVars_result [OF bucket formed, of nodes] obtain c2p gv1
      where run: "parseGlobalVars gv nodes
          = Inr (deleteProp ''vectorParents''
                   (setProp ''childrenToParents'' (childrenToParentsObject c2p) gv1),
                 stubParents c2p nodes)"
        and group: "\<And>d. map_of c2p d = (if parentsOf d vp = [] then None else Some (parentsOf d vp))"
      by blast
    let ?gv' = "deleteProp ''vectorParents''
                  (setProp ''childrenToParents'' (childrenToParentsObject c2p) gv1)"
    have out: "propOf d (getProp ''childrenToParents'' ?gv')
                 = (if parentsOf d vp = [] then JUndef else JArr (map JStr (parentsOf d vp)))" for d
      by (simp add: getProp_final_store propOf_childrenToParentsObject group [of d])
    from member [of a] have here: "q \<in> set (parentsOf a vp)" by simp
    then have "propOf a (getProp ''childrenToParents'' ?gv') = JArr (map JStr (parentsOf a vp))"
      using out [of a] by auto
    moreover have "count_list (parentsOf a vp) q = 1"
      using here parentsOf_distinct [OF dist, of a] by (simp add: count_list_distinct)
    moreover have "propOf a' (getProp ''childrenToParents'' ?gv') = JUndef
                     \<or> propOf a' (getProp ''childrenToParents'' ?gv') = JArr (map JStr (parentsOf a' vp))
                        \<and> q \<notin> set (parentsOf a' vp)" if "a' \<noteq> a" for a'
      using out [of a'] member [of a'] that by simp
    ultimately show ?thesis using run by blast
  qed
  have later: "getProp (node_id p) (bucketOf st4) = getProp (node_id p) (bucketOf st3)"
    if "parseNodes E st3 later outer = Inr (rs4, st4)"
      and "case outer of None \<Rightarrow> True | Some q \<Rightarrow> node_id q \<noteq> node_id p"
      and "list_all (\<lambda>x. node_id x \<noteq> node_id p) (concat (map shownNodes later))"
    using that by (rule bucket_entry_kept_later)
  from whole recorded later groups show ?thesis by blast
qed

theorem vectorParents_last_child_witness:
  "parseNodes exampleCollaborators initialState
       ([plainNode ''1:2'' ''VECTOR'' []] @ halfVector # [plainNode ''1:4'' ''RECTANGLE'' []])
       (Some twoVectorsParent)
     = Inr ([Some (JObj [(''id'', JStr ''1:2''), (''type'', JStr ''VECTOR'')])]
            @ Some (JObj [(''id'', JStr ''1:3''), (''type'', JStr ''VECTOR''),
                          (''opacity'', JNum (1 / 2))])
            # [Some (JObj [(''id'', JStr ''1:4''), (''type'', JStr ''RECTANGLE'')])],
            \<lparr>globalVars =
               [(''vectorParents'',
                 JObj [(''1:1'', vectorParentRecord twoVectorsParent ''var_BBBBBB'')]),
                (''var_AAAAAA'', JObj [(''type'', JStr ''VECTOR'')]),
                (''var_BBBBBB'', JObj [(''type'', JStr ''VECTOR''), (''opacity'', JNum (1 / 2))])],
             randomCalls = 12\<rparr>)
   \<and> parseNodes exampleCollaborators initialState [twoVectorsParent, oneVectorParent] None
       = Inr (map Some twoFramesNodes, \<lparr>globalVars = twoFramesStore, randomCalls = 12\<rparr>)
   \<and> getProp ''1:1'' (bucketOf \<lparr>globalVars = twoFramesStore, randomCalls = 12\<rparr>)
       = vectorParentRecord twoVectorsParent ''var_BBBBBB''
   \<and> parseGlobalVars twoFramesStore twoFramesNodes
       = Inr ([(''childrenToParents'',
                JObj [(''var_BBBBBB'', JArr [JStr ''1:1'']), (''var_AAAAAA'', JArr [JStr ''2:1''])])],
              [JObj [(''id'', JStr ''1:1''), (''type'', JStr ''IMAGE'')],
               JObj [(''id'', JStr ''2:1''), (''type'', JStr ''IMAGE'')]])
   \<and> count_list
         (parentsOf ''var_BBBBBB''
            [(''1:1'', vectorParentRecord twoVectorsParent ''var_BBBBBB''),
             (''2:1'', vectorParentRecord oneVectorParent ''var_AAAAAA'')]) ''1:1'' = 1
   \<and> ''1:1'' \<notin> set (parentsOf ''var_AAAAAA''
                        [(''1:1'', vectorParentRecord twoVectorsParent ''var_BBBBBB''),
                         (''2:1'', vectorParentRecord oneVectorParent ''var_AAAAAA'')])"
proof -
  let ?E = exampleCollaborators
  let ?st1 = "\<lparr>globalVars =
               [(''vectorParents'',
                 JObj [(''1:1'', vectorParentRecord twoVectorsParent ''var_AAAAAA'')]),
                (''var_AAAAAA'', JObj [(''type'', JStr ''VECTOR'')])],
             randomCalls = 6\<rparr>"
  let ?st2 = "\<lparr>globalVars =
               [(''vectorParents'',
                 JObj [(''1:1'', vectorParentRecord twoVectorsParent ''var_BBBBBB'')]),
                (''var_AAAAAA'', JObj [(''type'', JStr ''VECTOR'')]),
                (''var_BBBBBB'', JObj [(''type'', JStr ''VECTOR''), (''opacity'', JNum (1 / 2))])],
             randomCalls = 12\<rparr>"
  let ?vp = "[(''1:1'', vectorParentRecord twoVectorsParent ''var_BBBBBB''),
              (''2:1'', vectorParentRecord oneVectorParent ''var_AAAAAA'')]"
  have before: "parseNodes ?E initialState [plainNode ''1:2'' ''VECTOR'' []] (Some twoVectorsParent)
      = Inr ([Some (JObj [(''id'', JStr ''1:2''), (''type'', JStr ''VECTOR'')])], ?st1)"
    by code_simp
  have child: "parseNode ?E ?st1 halfVector (Some twoVectorsParent)
      = Inr (Some (JObj [(''id'', JStr ''1:3''), (''type'', JStr ''VECTOR''),
                         (''opacity'', JNum (1 / 2))]), ?st2)"
    by code_simp
  have after: "parseNodes ?E ?st2 [plainNode ''1:4'' ''RECTANGLE'' []] (Some twoVectorsParent)
      = Inr ([Some (JObj [(''id'', JStr ''1:4''), (''type'', JStr ''RECTANGLE'')])], ?st2)"
    by code_simp
  have visible: "isVisible halfVector" and vector: "node_type halfVector = ''VECTOR''"
    by (simp_all add: halfVector_def isVisible_def)
  have plain: "list_all (\<lambda>x. \<not> (isVisible x \<and> node_type x = ''VECTOR''))
                 [plainNode ''1:4'' ''RECTANGLE'' []]"
    by (simp add: plainNode_def)
  have apart: "list_all (\<lambda>x. node_id x \<noteq> node_id twoVectorsParent)
                 (concat (map shownNodes [plainNode ''1:4'' ''RECTANGLE'' []]))"
    by (simp add: plainNode_def twoVectorsParent_def shownNodes.simps isVisible_def)
  have bucket: "getProp ''vectorParents'' twoFramesStore = JObj ?vp"
    by (simp add: twoFramesStore_def getProp_Cons)
  have formed: "wellFormedBucket ?vp"
    by (simp add: wellFormedBucket_def wellFormedRecord_def recordedChildrenId_def getProp_Cons
        objectPrototypeKeys_def vectorParentRecord_def)
  have entry: "map_of ?vp ''1:1'' = Some (vectorParentRecord twoVectorsParent ''var_BBBBBB'')"
    by simp
  have address: "recordedChildrenId (vectorParentRecord twoVectorsParent ''var_BBBBBB'')
                   = Some ''var_BBBBBB''"
    by (simp add: recordedChildrenId_def getProp_Cons vectorParentRecord_def)
  have walk: "parseNodes ?E initialState [twoVectorsParent, oneVectorParent] None
       = Inr (map Some twoFramesNodes, \<lparr>globalVars = twoFramesStore, randomCalls = 12\<rparr>)"
    by code_simp
  have run: "parseGlobalVars twoFramesStore twoFramesNodes
       = Inr ([(''childrenToParents'',
                JObj [(''var_BBBBBB'', JArr [JStr ''1:1'']), (''var_AAAAAA'', JArr [JStr ''2:1''])])],
              [JObj [(''id'', JStr ''1:1''), (''type'', JStr ''IMAGE'')],
               JObj [(''id'', JStr ''2:1''), (''type'', JStr ''IMAGE'')]])"
    by code_simp
  have next_frame: "parseNodes ?E ?st2 [oneVectorParent] None
       = Inr ([Some (JObj [(''id'', JStr ''2:1''), (''type'', JStr ''FRAME''),
                           (''children'',
                            JArr [JObj [(''id'', JStr ''2:2''), (''type'', JStr ''VECTOR'')]])])],
              \<lparr>globalVars = twoFramesStore, randomCalls = 12\<rparr>)"
    by code_simp
  have elsewhere: "list_all (\<lambda>x. node_id x \<noteq> node_id twoVectorsParent)
                     (concat (map shownNodes [oneVectorParent]))"
    by (simp add: plainNode_def twoVectorsParent_def oneVectorParent_def shownNodes.simps
        isVisible_def)
  have recorded: "getProp (node_id twoVectorsParent) (bucketOf ?st2)
                    = vectorParentRecord twoVectorsParent ''var_BBBBBB''"
    by (simp add: bucketOf_def getProp_Cons twoVectorsParent_def plainNode_def)
  note result = vectorParents_last_child [OF before child after visible vector plain apart,
      of "[oneVectorParent]" None _ "\<lparr>globalVars = twoFramesStore, randomCalls = 12\<rparr>"
         twoFramesStore ?vp "''1:1''" "vectorParentRecord twoVectorsParent ''var_BBBBBB''"
         "''var_BBBBBB''" twoFramesNodes]
  from result next_frame elsewhere recorded
  have final: "getProp ''1:1'' (bucketOf \<lparr>globalVars = twoFramesStore, randomCalls = 12\<rparr>)
                 = vectorParentRecord twoVectorsParent ''var_BBBBBB''"
    by (simp add: twoVectorsParent_def plainNode_def)
  from result have whole: "parseNodes ?E initialState
       ([plainNode ''1:2'' ''VECTOR'' []] @ halfVector # [plainNode ''1:4'' ''RECTANGLE'' []])
       (Some twoVectorsParent)
     = Inr ([Some (JObj [(''id'', JStr ''1:2''), (''type'', JStr ''VECTOR'')])]
            @ Some (JObj [(''id'', JStr ''1:3''), (''type'', JStr ''VECTOR''),
                          (''opacity'', JNum (1 / 2))])
            # [Some (JObj [(''id'', JStr ''1:4''), (''type'', JStr ''RECTANGLE'')])], ?st2)"
    by (rule conjunct1)
  from result bucket formed entry address obtain gv' nodes'
    where "parseGlobalVars twoFramesStore twoFramesNodes = Inr (gv', nodes')"
      and once: "count_list (parentsOf ''var_BBBBBB'' ?vp) ''1:1'' = 1"
      and others: "\<And>a'. a' \<noteq> ''var_BBBBBB'' \<Longrightarrow>
                     propOf a' (getProp ''childrenToParents'' gv') = JUndef
                     \<or> propOf a' (getProp ''childrenToParents'' gv') = JArr (map JStr (parentsOf a' ?vp))
                        \<and> ''1:1'' \<notin> set (parentsOf a' ?vp)"
    by blast
  with run have gv': "gv' = [(''childrenToParents'',
                JObj [(''var_BBBBBB'', JArr [JStr ''1:1'']), (''var_AAAAAA'', JArr [JStr ''2:1''])])]"
    by simp
  have "propOf ''var_AAAAAA'' (getProp ''childrenToParents'' gv') \<noteq> JUndef"
    unfolding gv' by (simp add: getProp_Cons)
  with others [of "''var_AAAAAA''"] have other: "''1:1'' \<notin> set (parentsOf ''var_AAAAAA'' ?vp)"
    by simp
  from whole walk final run once other show ?thesis
    by (intro conjI)
qed

subsection \<open>The entries of the store during the walk\<close>

lemma storeStep_refl: "storeStep rnd st st"
  by (simp add: storeStep_def)

lemma storeStep_trans:
  assumes "storeStep rnd a b" and "storeStep rnd b c"
  shows "storeStep rnd a c"
proof -
  from assms have calls: "randomCalls a \<le> randomCalls b" "randomCalls b \<le> randomCalls c"
    by (simp_all add: storeStep_def)
  have keys: "hasKey k (globalVars c)" if "hasKey k (globalVars a)" for k
    using assms that by (simp add: storeStep_def)
  have minted: "\<exists>i. randomCalls a \<le> i \<and> i < randomCalls c \<and> k = generateVarId rnd i"
    if bucket: "k \<noteq> ''vectorParents''"
      and changed: "map_of (globalVars c) k \<noteq> map_of (globalVars a) k" for k
  proof (cases "map_of (globalVars b) k = map_of (globalVars a) k")
    case True
    with changed have "map_of (globalVars c) k \<noteq> map_of (globalVars b) k" by simp
    with assms(2) bucket obtain i
      where "randomCalls b \<le> i" "i < randomCalls c" "k = generateVarId rnd i"
      unfolding storeStep_def by blast
    with calls show ?thesis by (intro exI [of _ i]) simp
  next
    case False
    with assms(1) bucket obtain i
      where "randomCalls a \<le> i" "i < randomCalls b" "k = generateVarId rnd i"
      unfolding storeStep_def by blast
    with calls show ?thesis by (intro exI [of _ i]) simp
  qed
  from calls keys minted show ?thesis
    unfolding storeStep_def by (intro conjI allI impI) auto
qed

lemma storeStep_createVar: "storeStep rnd st (snd (createVar rnd st v))"
  unfolding storeStep_def
  by (auto simp: createVar_def Let_def hasKey_setProp map_of_setProp
      intro: exI [of _ "randomCalls st"] split: if_splits)

lemma storeStep_findOrCreateVar: "storeStep rnd st (snd (findOrCreateVar rnd st v))"
  using findOrCreateVar_cases [of rnd st v] storeStep_createVar [of rnd st v] storeStep_refl [of rnd st]
  by auto

lemma storeStep_recordVectorParent:
  assumes "recordVectorParent q vectorId st = Inr st'"
  shows "storeStep rnd st st'"
  unfolding storeStep_def recordVectorParent_result [OF assms]
  by (simp add: hasKey_setProp map_of_setProp)

lemma walk_storeStep:
  assumes "parseNodes E st ns outer = Inr (rs, st')"
  shows "storeStep (mathRandom E) st st'"
proof (rule walk_steps(2) [where R = "storeStep (mathRandom E)" and Q = "\<lambda>q. True"
      and rnd = "mathRandom E", OF _ _ _ _ assms])
  show "storeStep (mathRandom E) a a" for a
    by (rule storeStep_refl)
  show "storeStep (mathRandom E) a b \<Longrightarrow> storeStep (mathRandom E) b c
          \<Longrightarrow> storeStep (mathRandom E) a c" for a b c
    by (rule storeStep_trans)
  show "storeStep (mathRandom E) a (snd (findOrCreateVar (mathRandom E) a v))" for a v
    by (rule storeStep_findOrCreateVar)
  show "recordVectorParent q vectorId a = Inr b \<Longrightarrow> storeStep (mathRandom E) a b"
    for q vectorId a b
    by (rule storeStep_recordVectorParent)
  show "list_all (\<lambda>x. isVisible x \<and> node_type x = ''VECTOR''
                        \<longrightarrow> (case outer of None \<Rightarrow> True | Some q \<Rightarrow> True)) ns"
    by (simp add: list_all_iff split: option.splits)
  show "list_all (\<lambda>q. True) (concat (map shownNodes ns))"
    by (simp add: list_all_iff)
qed simp


subsection \<open>Well-formed states\<close>

lemma storeKey_generateVarId: "storeKey (generateVarId rnd c)"
  by (simp add: storeKey_def generateVarId_def)

lemma storeKey_not_prototype: "storeKey c \<Longrightarrow> c \<notin> set objectPrototypeKeys"
  by (auto simp: storeKey_def objectPrototypeKeys_def)

lemma keys_all_iff: "list_all (\<lambda>kv. P (fst kv)) kvs \<longleftrightarrow> (\<forall>k. hasKey k kvs \<longrightarrow> P k)"
  by (auto simp: list_all_iff hasKey_iff)

lemma keys_all_setProp:
  "list_all (\<lambda>kv. P (fst kv)) (setProp k v kvs) \<longleftrightarrow> P k \<and> list_all (\<lambda>kv. P (fst kv)) kvs"
  by (auto simp: keys_all_iff hasKey_setProp)

lemma set_setProp_subset: "set (setProp k v kvs) \<subseteq> insert (k, v) (set kvs)"
  by (auto simp: setProp_def set_insertKey split: if_splits)

lemma findOrCreateVar_key:
  "hasKey (fst (findOrCreateVar rnd st v)) (globalVars (snd (findOrCreateVar rnd st v)))"
proof (cases "find (\<lambda>kv. JSON_stringify (snd kv) = JSON_stringify v) (globalVars st)")
  case None
  then show ?thesis
    by (simp add: findOrCreateVar_def createVar_def Let_def hasKey_setProp)
next
  case (Some kv)
  then have "kv \<in> set (globalVars st)"
    by (auto simp: find_Some_iff)
  then have "hasKey (fst kv) (globalVars st)"
    by (auto simp: hasKey_iff)
  with Some show ?thesis
    by (simp add: findOrCreateVar_def createVar_def Let_def hasKey_setProp)
qed

lemma wellFormedState_createVar:
  assumes "wellFormedState st"
  shows "wellFormedState (snd (createVar rnd st v))"
  using assms
  by (simp add: wellFormedState_def createVar_def Let_def keys_all_setProp
      storeKey_generateVarId getProp_setProp generateVarId_not_bucket)

lemma wellFormedState_findOrCreateVar:
  assumes "wellFormedState st"
  shows "wellFormedState (snd (findOrCreateVar rnd st v))"
  using findOrCreateVar_cases [of rnd st v] wellFormedState_createVar [OF assms, of rnd v] assms
  by auto

lemma wellFormedState_recordVectorParent:
  assumes formed: "wellFormedState st" and key: "hasKey vectorId (globalVars st)"
    and run: "recordVectorParent q vectorId st = Inr st'"
  shows "wellFormedState st'"
proof -
  from formed obtain vp where bucket: "getProp ''vectorParents'' (globalVars st) = JObj vp"
    and dist: "distinct (map fst vp)"
    and records: "list_all (\<lambda>entry. case recordedChildrenId (snd entry) of
                                     None \<Rightarrow> False | Some c \<Rightarrow> storeKey c) vp"
    by (auto simp: wellFormedState_def split: jv.splits)
  from formed key have address: "storeKey vectorId"
    by (simp add: wellFormedState_def keys_all_iff)
  let ?vp' = "setProp (node_id q) (vectorParentRecord q vectorId) vp"
  have store: "globalVars st' = setProp ''vectorParents'' (JObj ?vp') (globalVars st)"
    using recordVectorParent_result [OF run] bucket by (simp add: bucketOf_def)
  have keys: "list_all (\<lambda>kv. storeKey (fst kv)) (globalVars st')"
    using formed keys_all_setProp [of storeKey "''vectorParents''" "JObj ?vp'" "globalVars st"]
    by (simp add: store wellFormedState_def storeKey_def [of "''vectorParents''"])
  have new: "recordedChildrenId (vectorParentRecord q vectorId) = Some vectorId"
    by (simp add: recordedChildrenId_def vectorParentRecord_def getProp_Cons)
  have "list_all (\<lambda>entry. case recordedChildrenId (snd entry) of
                            None \<Rightarrow> False | Some c \<Rightarrow> storeKey c) ?vp'"
    unfolding list_all_iff
  proof
    fix entry
    assume "entry \<in> set ?vp'"
    with set_setProp_subset [of "node_id q" "vectorParentRecord q vectorId" vp]
    consider "entry = (node_id q, vectorParentRecord q vectorId)" | "entry \<in> set vp"
      by auto
    then show "case recordedChildrenId (snd entry) of None \<Rightarrow> False | Some c \<Rightarrow> storeKey c"
    proof cases
      case 1
      with new address show ?thesis by simp
    next
      case 2
      with records show ?thesis by (simp add: list_all_iff)
    qed
  qed
  with keys distinct_setProp [OF dist, of "node_id q" "vectorParentRecord q vectorId"]
  show ?thesis
    by (simp add: wellFormedState_def store getProp_setProp)
qed

lemma wellFormedState_walk:
  assumes "parseNodes E st ns outer = Inr (rs, st')" and "wellFormedState st"
  shows "wellFormedState st'"
proof -
  have "wellFormedState st \<longrightarrow> wellFormedState st'"
  proof (rule walk_steps(2) [where R = "\<lambda>a b. wellFormedState a \<longrightarrow> wellFormedState b"
        and Q = "\<lambda>q. True" and rnd = "mathRandom E", OF _ _ _ _ assms(1)])
    show "wellFormedState a \<longrightarrow> wellFormedState (snd (findOrCreateVar (mathRandom E) a v))" for a v
      by (simp add: wellFormedState_findOrCreateVar)
    show "wellFormedState (snd (findOrCreateVar (mathRandom E) a v)) \<longrightarrow> wellFormedState b"
      if "recordVectorParent q (fst (findOrCreateVar (mathRandom E) a v))
            (snd (findOrCreateVar (mathRandom E) a v)) = Inr b" for q v a b
      using wellFormedState_recordVectorParent [OF _ findOrCreateVar_key that] by simp
    show "list_all (\<lambda>x. isVisible x \<and> node_type x = ''VECTOR''
                          \<longrightarrow> (case outer of None \<Rightarrow> True | Some q \<Rightarrow> True)) ns"
      by (simp add: list_all_iff split: option.splits)
    show "list_all (\<lambda>q. True) (concat (map shownNodes ns))"
      by (simp add: list_all_iff)
  qed simp_all
  with assms(2) show ?thesis by simp
qed

lemma wellFormedState_bucket:
  assumes "wellFormedState st"
  shows "\<exists>vp. getProp ''vectorParents'' (globalVars st) = JObj vp \<and> wellFormedBucket vp"
proof -
  from assms obtain vp where bucket: "getProp ''vectorParents'' (globalVars st) = JObj vp"
    and dist: "distinct (map fst vp)"
    and records: "list_all (\<lambda>entry. case recordedChildrenId (snd entry) of
                                     None \<Rightarrow> False | Some c \<Rightarrow> storeKey c) vp"
    by (auto simp: wellFormedState_def split: jv.splits)
  have "wellFormedRecord (snd entry)" if "entry \<in> set vp" for entry
    using records that
    by (auto simp: list_all_iff wellFormedRecord_def storeKey_not_prototype split: option.splits)
  with bucket dist show ?thesis
    by (auto simp: wellFormedBucket_def list_all_iff)
qed

lemma wellFormedState_initial: "wellFormedState initialState"
  by (simp add: wellFormedState_def initialState_def storeKey_def getProp_Cons)


subsection \<open>The entries of the store in a run\<close>

lemma map_of_final_store:
  assumes "k \<noteq> ''childrenToParents''"
  shows "map_of (deleteProp ''vectorParents'' (setProp ''childrenToParents'' obj gv1)) k
           = (if k = ''vectorParents'' then None else map_of gv1 k)"
  using assms by (simp add: map_of_deleteProp map_of_setProp)

text \<open>
  C4, as the code has it. During the walk no key leaves the store, and the payload under a
  key other than \<open>vectorParents\<close> is new or another one at the end of a stretch of the walk
  only if \<open>generateVarId\<close> returned that key in the stretch (for a key that was bound before:
  only if the random identifiers collide). After a walk that started in a well-formed state
  the grouping returns; it removes \<open>vectorParents\<close> and with it every key that a record of
  the bucket names as its \<open>childrenId\<close> (\<open>delete globalVars[childrenId]\<close>), it adds
  \<open>childrenToParents\<close>, and it leaves every other entry as it is.
\<close>

theorem store_entries_in_a_run:
  assumes "wellFormedState st" and "parseNodes E st roots outer = Inr (rs, st')"
  shows "(\<forall>k. hasKey k (globalVars st) \<longrightarrow> hasKey k (globalVars st'))
    \<and> (\<forall>k. k \<noteq> ''vectorParents'' \<and> map_of (globalVars st') k \<noteq> map_of (globalVars st) k
           \<longrightarrow> (\<exists>c. randomCalls st \<le> c \<and> c < randomCalls st'
                    \<and> k = generateVarId (mathRandom E) c))
    \<and> (\<exists>vp gv' nodes'.
          getProp ''vectorParents'' (globalVars st') = JObj vp
          \<and> parseGlobalVars (globalVars st') nodes = Inr (gv', nodes')
          \<and> (\<forall>k. k \<noteq> ''childrenToParents''
                 \<longrightarrow> map_of gv' k = (if k = ''vectorParents'' \<or> parentsOf k vp \<noteq> [] then None
                                     else map_of (globalVars st') k)))"
proof -
  from walk_storeStep [OF assms(2)]
  have kept: "\<forall>k. hasKey k (globalVars st) \<longrightarrow> hasKey k (globalVars st')"
    and minted: "\<forall>k. k \<noteq> ''vectorParents'' \<and> map_of (globalVars st') k \<noteq> map_of (globalVars st) k
           \<longrightarrow> (\<exists>c. randomCalls st \<le> c \<and> c < randomCalls st'
                    \<and> k = generateVarId (mathRandom E) c)"
    by (simp_all add: storeStep_def)
  from wellFormedState_bucket [OF wellFormedState_walk [OF assms(2,1)]] obtain vp
    where bucket: "getProp ''vectorParents'' (globalVars st') = JObj vp"
      and formed: "wellFormedBucket vp"
    by blast
  from parseGlobalVars_result [OF bucket formed, of nodes] obtain c2p gv1
    where run: "parseGlobalVars (globalVars st') nodes
        = Inr (deleteProp ''vectorParents''
                 (setProp ''childrenToParents'' (childrenToParentsObject c2p) gv1),
               stubParents c2p nodes)"
      and rest: "\<And>k. map_of gv1 k = (if parentsOf k vp \<noteq> [] then None else map_of (globalVars st') k)"
    by blast
  have "map_of (deleteProp ''vectorParents''
                  (setProp ''childrenToParents'' (childrenToParentsObject c2p) gv1)) k
          = (if k = ''vectorParents'' \<or> parentsOf k vp \<noteq> [] then None
             else map_of (globalVars st') k)"
    if "k \<noteq> ''childrenToParents''" for k
    using map_of_final_store [OF that, of "childrenToParentsObject c2p" gv1] rest [of k] by simp
  with bucket run have "\<exists>vp gv' nodes'.
          getProp ''vectorParents'' (globalVars st') = JObj vp
          \<and> parseGlobalVars (globalVars st') nodes = Inr (gv', nodes')
          \<and> (\<forall>k. k \<noteq> ''childrenToParents''
                 \<longrightarrow> map_of gv' k = (if k = ''vectorParents'' \<or> parentsOf k vp \<noteq> [] then None
                                     else map_of (globalVars st') k))"
    by blast
  with kept minted show ?thesis by (intro conjI)
qed

theorem store_entries_in_a_run_witness:
  "wellFormedState initialState
   \<and> parseNodes exampleCollaborators initialState [twoVectorsParent, oneVectorParent] None
       = Inr (map Some twoFramesNodes, \<lparr>globalVars = twoFramesStore, randomCalls = 12\<rparr>)
   \<and> hasKey ''vectorParents'' twoFramesStore
   \<and> (\<exists>c. c < 12 \<and> ''var_BBBBBB'' = generateVarId (mathRandom exampleCollaborators) c)
   \<and> (\<exists>vp. getProp ''vectorParents'' twoFramesStore = JObj vp
            \<and> parseGlobalVars twoFramesStore twoFramesNodes
                = Inr ([(''childrenToParents'',
                         JObj [(''var_BBBBBB'', JArr [JStr ''1:1'']),
                               (''var_AAAAAA'', JArr [JStr ''2:1''])])],
                       [JObj [(''id'', JStr ''1:1''), (''type'', JStr ''IMAGE'')],
                        JObj [(''id'', JStr ''2:1''), (''type'', JStr ''IMAGE'')]])
            \<and> parentsOf ''var_AAAAAA'' vp \<noteq> [])"
proof -
  let ?st' = "\<lparr>globalVars = twoFramesStore, randomCalls = 12\<rparr>"
  have formed: "wellFormedState initialState"
    by (simp add: wellFormedState_def initialState_def storeKey_def getProp_Cons)
  have walk: "parseNodes exampleCollaborators initialState [twoVectorsParent, oneVectorParent] None
       = Inr (map Some twoFramesNodes, ?st')"
    by code_simp
  have run: "parseGlobalVars twoFramesStore twoFramesNodes
                = Inr ([(''childrenToParents'',
                         JObj [(''var_BBBBBB'', JArr [JStr ''1:1'']),
                               (''var_AAAAAA'', JArr [JStr ''2:1''])])],
                       [JObj [(''id'', JStr ''1:1''), (''type'', JStr ''IMAGE'')],
                        JObj [(''id'', JStr ''2:1''), (''type'', JStr ''IMAGE'')]])"
    by code_simp
  have before: "hasKey ''vectorParents'' (globalVars initialState)"
    by (simp add: initialState_def hasKey_def)
  have new: "map_of twoFramesStore ''var_BBBBBB'' \<noteq> map_of (globalVars initialState) ''var_BBBBBB''"
    by (simp add: initialState_def twoFramesStore_def)
  have bound: "map_of twoFramesStore ''var_AAAAAA'' \<noteq> None"
    by (simp add: twoFramesStore_def)
  note result = store_entries_in_a_run [OF formed walk, of twoFramesNodes]
  from result before have kept: "hasKey ''vectorParents'' twoFramesStore"
    by simp
  from result new have minted: "\<exists>c. c < 12 \<and> ''var_BBBBBB'' = generateVarId (mathRandom exampleCollaborators) c"
    by (simp add: initialState_def)
  from result obtain vp gv' nodes'
    where bucket: "getProp ''vectorParents'' twoFramesStore = JObj vp"
      and "parseGlobalVars twoFramesStore twoFramesNodes = Inr (gv', nodes')"
      and rest: "\<And>k. k \<noteq> ''childrenToParents''
                 \<Longrightarrow> map_of gv' k = (if k = ''vectorParents'' \<or> parentsOf k vp \<noteq> [] then None
                                     else map_of twoFramesStore k)"
    by auto
  with run have "gv' = [(''childrenToParents'',
                         JObj [(''var_BBBBBB'', JArr [JStr ''1:1'']),
                               (''var_AAAAAA'', JArr [JStr ''2:1''])])]"
    by simp
  with rest [of "''var_AAAAAA''"] bound have "parentsOf ''var_AAAAAA'' vp \<noteq> []"
    by (auto split: if_splits)
  with bucket run have "\<exists>vp. getProp ''vectorParents'' twoFramesStore = JObj vp
            \<and> parseGlobalVars twoFramesStore twoFramesNodes
                = Inr ([(''childrenToParents'',
                         JObj [(''var_BBBBBB'', JArr [JStr ''1:1'']),
                               (''var_AAAAAA'', JArr [JStr ''2:1''])])],
                       [JObj [(''id'', JStr ''1:1''), (''type'', JStr ''IMAGE'')],
                        JObj [(''id'', JStr ''2:1''), (''type'', JStr ''IMAGE'')]])
            \<and> parentsOf ''var_AAAAAA'' vp \<noteq> []"
    by blast
  with formed walk kept minted show ?thesis by (intro conjI)
qed

text \<open>
  The claim as the specification words it: a file whose only frame has one VECTOR child.
  After the walk \<open>var_AAAAAA\<close> is a key of the store, bound to the payload of the vector; the
  grouping deletes it, and the \<open>globalVars\<close> of the result have the key \<open>childrenToParents\<close>
  only.
\<close>

theorem store_entries_in_a_run_counterexample:
  "parseNodes exampleCollaborators initialState [oneVectorParent] None
     = Inr ([Some (JObj [(''id'', JStr ''2:1''), (''type'', JStr ''FRAME''),
                         (''children'',
                          JArr [JObj [(''id'', JStr ''2:2''), (''type'', JStr ''VECTOR'')]])])],
            \<lparr>globalVars =
               [(''vectorParents'',
                 JObj [(''2:1'', vectorParentRecord oneVectorParent ''var_AAAAAA'')]),
                (''var_AAAAAA'', JObj [(''type'', JStr ''VECTOR'')])],
             randomCalls = 6\<rparr>)
   \<and> hasKey ''var_AAAAAA''
        [(''vectorParents'', JObj [(''2:1'', vectorParentRecord oneVectorParent ''var_AAAAAA'')]),
         (''var_AAAAAA'', JObj [(''type'', JStr ''VECTOR'')])]
   \<and> parseFigmaFileResponse exampleCollaborators
        \<lparr>file_name = ''file'', file_lastModified = ''today'',
         file_document_children = [oneVectorParent]\<rparr>
       = Inr \<lparr>design_name = ''file'', design_lastModified = ''today'',
              design_nodes = [JObj [(''id'', JStr ''2:1''), (''type'', JStr ''IMAGE'')]],
              design_globalVars =
                [(''childrenToParents'', JObj [(''var_AAAAAA'', JArr [JStr ''2:1''])])]\<rparr>
   \<and> \<not> hasKey ''var_AAAAAA''
          [(''childrenToParents'', JObj [(''var_AAAAAA'', JArr [JStr ''2:1''])])]"
proof (intro conjI)
  show "parseNodes exampleCollaborators initialState [oneVectorParent] None
     = Inr ([Some (JObj [(''id'', JStr ''2:1''), (''type'', JStr ''FRAME''),
                         (''children'',
                          JArr [JObj [(''id'', JStr ''2:2''), (''type'', JStr ''VECTOR'')]])])],
            \<lparr>globalVars =
               [(''vectorParents'',
                 JObj [(''2:1'', vectorParentRecord oneVectorParent ''var_AAAAAA'')]),
                (''var_AAAAAA'', JObj [(''type'', JStr ''VECTOR'')])],
             randomCalls = 6\<rparr>)"
    by code_simp
  show "parseFigmaFileResponse exampleCollaborators
        \<lparr>file_name = ''file'', file_lastModified = ''today'',
         file_document_children = [oneVectorParent]\<rparr>
       = Inr \<lparr>design_name = ''file'', design_lastModified = ''today'',
              design_nodes = [JObj [(''id'', JStr ''2:1''), (''type'', JStr ''IMAGE'')]],
              design_globalVars =
                [(''childrenToParents'', JObj [(''var_AAAAAA'', JArr [JStr ''2:1''])])]\<rparr>"
    by code_simp
qed (simp_all add: hasKey_def)

subsection \<open>The ids of a simplified tree\<close>














subsection \<open>The rewrite of the recorded parents\<close>
















subsection \<open>Parents with the same recorded address\<close>




end
